theory Spec2Isabelle
  imports Main
begin

section \<open>CCG lexicons: a model of nltk/ccg/lexicon.py\<close>

text \<open>
  Strings are Python 3 text strings whose code points are below 256, one \<^typ>\<open>char\<close> per
  code point.  Every exception the module can raise is a value of \<open>error\<close>:
  \<^item> \<open>MalformedCategory\<close>: the \<^verbatim>\<open>AssertionError\<close> of \<^verbatim>\<open>matchBrackets\<close>, and the
    \<^verbatim>\<open>AttributeError\<close> of \<^verbatim>\<open>NEXTPRIM_RE.match(..).groups()\<close> or
    \<^verbatim>\<open>APP_RE.match(..).groups()\<close> when the match is \<^verbatim>\<open>None\<close>;
  \<^item> \<open>UnknownCategoryName\<close>: the \<^verbatim>\<open>AssertionError\<close> of \<^verbatim>\<open>parsePrimitiveCategory\<close>;
  \<^item> \<open>MalformedLexiconLine\<close>: the \<^verbatim>\<open>AttributeError\<close> of \<^verbatim>\<open>LEX_RE.match(line).groups()\<close>;
  \<^item> \<open>NoPrimitivesDeclared\<close>: the \<^verbatim>\<open>IndexError\<close> of \<^verbatim>\<open>primitives[0]\<close>.
\<close>

datatype error =
    MalformedCategory
  | UnknownCategoryName
  | MalformedLexiconLine
  | NoPrimitivesDeclared

subsection \<open>Bracket matching\<close>

text \<open>
  \<^verbatim>\<open>matchBrackets(string)\<close>: \<open>mb_loop rest inside\<close> is the \<^verbatim>\<open>while\<close> loop together with
  the \<^verbatim>\<open>if\<close> and the \<^verbatim>\<open>raise\<close> that follow it.
\<close>

function matchBrackets :: "string \<Rightarrow> error + (string \<times> string)"
  and mb_loop :: "string \<Rightarrow> string \<Rightarrow> error + (string \<times> string)" where
  "matchBrackets string = mb_loop (drop 1 string) ''(''"
| "mb_loop rest inside =
     (if rest \<noteq> [] \<and> hd rest \<noteq> CHR '')'' then
        (if hd rest = CHR ''('' then
           (case matchBrackets rest of
              Inl e \<Rightarrow> Inl e
            | Inr (part, rest') \<Rightarrow> mb_loop rest' (inside @ part))
         else mb_loop (tl rest) (inside @ [hd rest]))
      else if rest \<noteq> [] \<and> hd rest = CHR '')'' then Inr (inside @ '')'', tl rest)
      else Inl MalformedCategory)"
  by pat_completeness auto

lemma matchBrackets_shorter_dom:
  "matchBrackets_mb_loop_dom (Inl s) \<Longrightarrow> matchBrackets s = Inr (p, r) \<Longrightarrow> length r < length s"
  "matchBrackets_mb_loop_dom (Inr (rest, inside)) \<Longrightarrow> mb_loop rest inside = Inr (p, r) \<Longrightarrow>
     length r < length rest"
proof (induction s and rest inside arbitrary: p r and p r rule: matchBrackets_mb_loop.pinduct)
  case (1 string)
  from 1(1) 1(3) have "mb_loop (drop 1 string) ''('' = Inr (p, r)"
    by (simp add: matchBrackets.psimps)
  from 1(2)[OF this] show ?case by simp
next
  case (2 rest inside)
  show ?case
  proof (cases "rest \<noteq> [] \<and> hd rest \<noteq> CHR '')''")
    case go: True
    show ?thesis
    proof (cases "hd rest = CHR ''(''")
      case True
      with go 2(1) 2(5) obtain part rest' where
        m: "matchBrackets rest = Inr (part, rest')" and
        l: "mb_loop rest' (inside @ part) = Inr (p, r)"
        by (auto simp: mb_loop.psimps split: sum.splits)
      from 2(2)[OF go True m] have "length rest' < length rest" .
      moreover from 2(3)[OF go True m refl l] have "length r < length rest'" .
      ultimately show ?thesis by simp
    next
      case False
      with go 2(1) 2(5) have "mb_loop (tl rest) (inside @ [hd rest]) = Inr (p, r)"
        by (simp add: mb_loop.psimps)
      from 2(4)[OF go False this] go show ?thesis by (cases rest) auto
    qed
  next
    case False
    with 2(1) 2(5) show ?thesis
      by (cases rest) (auto simp: mb_loop.psimps split: if_splits)
  qed
qed

termination matchBrackets
proof (relation "measure (\<lambda>x. case x of
          Inl s \<Rightarrow> (if s = [] then 1 else 2 * length s - 1)
        | Inr (rest, inside) \<Rightarrow> 2 * length rest)", goal_cases)
  case 1
  show ?case by simp
next
  case (2 string)
  show ?case by (cases string) auto
next
  case (3 rest inside)
  then show ?case by (cases rest) auto
next
  case (4 rest inside x2 x y)
  then show ?case using matchBrackets_shorter_dom(1)[of rest x y] by simp
next
  case (5 rest inside)
  then show ?case by (cases rest) auto
qed

declare matchBrackets.simps [simp del] mb_loop.simps [simp del]

subsection \<open>Characters and strings\<close>

definition is_letter :: "char \<Rightarrow> bool" where
  \<comment> \<open>the class \<^verbatim>\<open>[A-Za-z]\<close>\<close>
  "is_letter c = (let n = (of_char c :: nat) in (65 \<le> n \<and> n \<le> 90) \<or> (97 \<le> n \<and> n \<le> 122))"

definition is_subscr_char :: "char \<Rightarrow> bool" where
  \<comment> \<open>the class \<^verbatim>\<open>[A-Za-z,]\<close>\<close>
  "is_subscr_char c = (is_letter c \<or> c = CHR '','')"

definition is_space :: "char \<Rightarrow> bool" where
  \<comment> \<open>\<^verbatim>\<open>\s\<close> of a text pattern and the characters \<^verbatim>\<open>str.strip()\<close> removes, below 256\<close>
  "is_space c = (let n = (of_char c :: nat) in
     (9 \<le> n \<and> n \<le> 13) \<or> (28 \<le> n \<and> n \<le> 32) \<or> n = 133 \<or> n = 160)"

definition is_word :: "char \<Rightarrow> bool" where
  \<comment> \<open>\<^verbatim>\<open>[\w_]\<close> under \<^verbatim>\<open>re.UNICODE\<close>: alphanumeric code points below 256, and the underscore\<close>
  "is_word c = (let n = (of_char c :: nat) in
     (48 \<le> n \<and> n \<le> 57) \<or> (65 \<le> n \<and> n \<le> 90) \<or> n = 95 \<or> (97 \<le> n \<and> n \<le> 122) \<or>
     n = 170 \<or> n = 178 \<or> n = 179 \<or> n = 181 \<or> n = 185 \<or> n = 186 \<or>
     (188 \<le> n \<and> n \<le> 190) \<or> (192 \<le> n \<and> n \<le> 214) \<or> (216 \<le> n \<and> n \<le> 246) \<or> 248 \<le> n)"

definition is_linebreak :: "char \<Rightarrow> bool" where
  \<comment> \<open>the line boundaries of \<^verbatim>\<open>str.splitlines()\<close> below 256\<close>
  "is_linebreak c = (let n = (of_char c :: nat) in
     (10 \<le> n \<and> n \<le> 13) \<or> (28 \<le> n \<and> n \<le> 30) \<or> n = 133)"

definition not_newline :: "char \<Rightarrow> bool" where
  \<comment> \<open>what \<^verbatim>\<open>.\<close> matches in a pattern compiled without \<^verbatim>\<open>re.DOTALL\<close>\<close>
  "not_newline c = (c \<noteq> CHR 0x0A)"

definition startswith :: "string \<Rightarrow> string \<Rightarrow> bool" where
  "startswith s p = (take (length p) s = p)"

definition strip :: "string \<Rightarrow> string" where
  "strip s = rev (dropWhile is_space (rev (dropWhile is_space s)))"

text \<open>\<^verbatim>\<open>s.split(sep)\<close> for a separator of one character; \<open>cur\<close> is the piece being read.\<close>

fun split_aux :: "char \<Rightarrow> string \<Rightarrow> string \<Rightarrow> string list" where
  "split_aux sep cur [] = [cur]"
| "split_aux sep cur (c # cs) =
     (if c = sep then cur # split_aux sep [] cs else split_aux sep (cur @ [c]) cs)"

definition py_split :: "string \<Rightarrow> char \<Rightarrow> string list" where
  "py_split s sep = split_aux sep [] s"

text \<open>\<^verbatim>\<open>s.splitlines()\<close>: \<^verbatim>\<open>\r\n\<close> is one boundary, and a last line that is empty is dropped.\<close>

fun splitlines_aux :: "string \<Rightarrow> string \<Rightarrow> string list" where
  "splitlines_aux cur [] = (if cur = [] then [] else [cur])"
| "splitlines_aux cur [c] = (if is_linebreak c then [cur] else [cur @ [c]])"
| "splitlines_aux cur (c # d # cs) =
     (if c = CHR 0x0D \<and> d = CHR 0x0A then cur # splitlines_aux [] cs
      else if is_linebreak c then cur # splitlines_aux [] (d # cs)
      else splitlines_aux (cur @ [c]) (d # cs))"

definition splitlines :: "string \<Rightarrow> string list" where
  "splitlines s = splitlines_aux [] s"

subsection \<open>The regular expressions\<close>

text \<open>
  Each pattern is used through \<^verbatim>\<open>match(..).groups()\<close> only; its model returns the groups, or
  \<open>None\<close> where \<^verbatim>\<open>match\<close> returns \<^verbatim>\<open>None\<close>.  A group that did not take part in the match
  is \<open>None\<close> as well.

  \<open>subscr_group s\<close> matches \<^verbatim>\<open>\[[A-Za-z,]+\]\<close> at the start of \<open>s\<close> and returns the bracket text
  and what follows it.
\<close>

definition subscr_group :: "string \<Rightarrow> (string \<times> string) option" where
  "subscr_group s =
     (case s of
        [] \<Rightarrow> None
      | c # t \<Rightarrow>
          (let body = takeWhile is_subscr_char t; t' = dropWhile is_subscr_char t in
           if c = CHR ''['' \<and> body \<noteq> [] \<and> t' \<noteq> [] \<and> hd t' = CHR '']''
           then Some (c # body @ '']'', tl t') else None))"

definition PRIM_RE :: "string \<Rightarrow> (string \<times> string option) option" where
  \<comment> \<open>\<^verbatim>\<open>([A-Za-z]+)(\[[A-Za-z,]+\])?\<close>\<close>
  "PRIM_RE s =
     (let name = takeWhile is_letter s in
      if name = [] then None
      else Some (name, map_option fst (subscr_group (dropWhile is_letter s))))"

definition NEXTPRIM_RE :: "string \<Rightarrow> (string \<times> string) option" where
  \<comment> \<open>\<^verbatim>\<open>([A-Za-z]+(?:\[[A-Za-z,]+\])?)(.*)\<close>\<close>
  "NEXTPRIM_RE s =
     (let name = takeWhile is_letter s; r = dropWhile is_letter s in
      if name = [] then None
      else (case subscr_group r of
              Some (b, r') \<Rightarrow> Some (name @ b, takeWhile not_newline r')
            | None \<Rightarrow> Some (name, takeWhile not_newline r)))"

definition opt_modifier :: "string \<Rightarrow> string \<times> string" where
  \<comment> \<open>\<^verbatim>\<open>([.,]?)\<close>\<close>
  "opt_modifier s =
     (case s of
        [] \<Rightarrow> ([], [])
      | c # t \<Rightarrow> if c = CHR ''.'' \<or> c = CHR '','' then ([c], t) else ([], s))"

definition APP_RE :: "string \<Rightarrow> (string \<times> string \<times> string \<times> string) option" where
  \<comment> \<open>\<^verbatim>\<open>([\\/])([.,]?)([.,]?)(.*)\<close>\<close>
  "APP_RE s =
     (case s of
        [] \<Rightarrow> None
      | c # t \<Rightarrow>
          if c = CHR 0x5C \<or> c = CHR ''/'' then
            (let (m1, t1) = opt_modifier t; (m2, t2) = opt_modifier t1
             in Some ([c], m1, m2, takeWhile not_newline t2))
          else None)"

text \<open>
  \<open>LEX_RE\<close> is \<^verbatim>\<open>([\w_]+)\s*(::|[-=]+>)\s*(.+)\<close>.  Every group but the last can only match the
  longest run of its class.  The last \<^verbatim>\<open>\s*\<close> gives a character back to \<^verbatim>\<open>(.+)\<close> when
  nothing follows the white space: then \<^verbatim>\<open>(.+)\<close> is the last character of that white space
  which is not a newline.
\<close>

definition lex_separator :: "string \<Rightarrow> (string \<times> string) option" where
  \<comment> \<open>\<^verbatim>\<open>(::|[-=]+>)\<close>\<close>
  "lex_separator s =
     (if startswith s ''::'' then Some (''::'', drop 2 s)
      else (let run = takeWhile (\<lambda>c. c = CHR ''-'' \<or> c = CHR ''='') s;
                t = dropWhile (\<lambda>c. c = CHR ''-'' \<or> c = CHR ''='') s in
            if run \<noteq> [] \<and> t \<noteq> [] \<and> hd t = CHR ''>'' then Some (run @ ''>'', tl t) else None))"

definition lex_category_text :: "string \<Rightarrow> string option" where
  \<comment> \<open>\<^verbatim>\<open>\s*(.+)\<close>\<close>
  "lex_category_text s =
     (let ws = takeWhile is_space s; t = dropWhile is_space s in
      if t \<noteq> [] then Some (takeWhile not_newline t)
      else (case rev (filter not_newline ws) of [] \<Rightarrow> None | c # _ \<Rightarrow> Some [c]))"

definition LEX_RE :: "string \<Rightarrow> (string \<times> string \<times> string) option" where
  "LEX_RE s =
     (let ident = takeWhile is_word s in
      if ident = [] then None
      else (case lex_separator (dropWhile is_space (dropWhile is_word s)) of
              None \<Rightarrow> None
            | Some (sep, t) \<Rightarrow>
                (case lex_category_text t of
                   None \<Rightarrow> None
                 | Some catstr \<Rightarrow> Some (ident, sep, catstr))))"

definition COMMENTS_RE :: "string \<Rightarrow> string" where
  \<comment> \<open>\<^verbatim>\<open>([^#]*)(?:#.*)?\<close>, which always matches: its one group\<close>
  "COMMENTS_RE s = takeWhile (\<lambda>c. c \<noteq> CHR ''#'') s"


subsection \<open>Categories\<close>

text \<open>
  Modelled from the spec: the classes \<^verbatim>\<open>Direction\<close>, \<^verbatim>\<open>PrimitiveCategory\<close>,
  \<^verbatim>\<open>FunctionalCategory\<close> and \<^verbatim>\<open>CCGVar\<close> of \<^verbatim>\<open>nltk.ccg.api\<close>, which this module imports.
  A direction is its slash and its restriction modifiers; a primitive category is a name and
  its subscripts, compared field by field; a functional category is a result, an argument
  and a direction.  A unification variable is an identity: \<open>CCGVar i\<close> is the \<open>i\<close>-th
  variable created, and \<^verbatim>\<open>CCGVar()\<close> takes the next number of a counter that every function
  below which may create a variable receives and returns.
\<close>

datatype Direction = Direction string "string list"

datatype category =
    PrimitiveCategory string "string list"
  | FunctionalCategory category category Direction
  | CCGVar nat

text \<open>
  Modelled from the spec: \<^verbatim>\<open>cat.substitute(subs)\<close> of \<^verbatim>\<open>nltk.ccg.api\<close>, the copy of
  \<open>cat\<close> in which a variable that is the first component of a pair of \<open>subs\<close> is replaced
  by the second component of the first such pair.  The first component is \<open>None\<close> for a
  family stored without a variable.
\<close>

fun substitute :: "category \<Rightarrow> (category option \<times> category) list \<Rightarrow> category" where
  "substitute (PrimitiveCategory categ restrs) subs = PrimitiveCategory categ restrs"
| "substitute (FunctionalCategory res arg dir) subs =
     FunctionalCategory (substitute res subs) (substitute arg subs) dir"
| "substitute (CCGVar i) subs =
     (case find (\<lambda>(v, c). v = Some (CCGVar i)) subs of
        Some (v, c) \<Rightarrow> c
      | None \<Rightarrow> CCGVar i)"

subsection \<open>Parsing categories\<close>

definition nextCategory :: "string \<Rightarrow> error + (string \<times> string)" where
  "nextCategory string =
     (if startswith string ''('' then matchBrackets string
      else (case NEXTPRIM_RE string of
              None \<Rightarrow> Inl MalformedCategory
            | Some groups \<Rightarrow> Inr groups))"

definition parseApplication :: "string \<times> string \<times> string \<Rightarrow> Direction" where
  \<comment> \<open>\<^verbatim>\<open>Direction(app[0], app[1:])\<close> for the three groups \<^verbatim>\<open>app\<close>\<close>
  "parseApplication app = (case app of (slash, m1, m2) \<Rightarrow> Direction slash [m1, m2])"

definition parseSubscripts :: "string option \<Rightarrow> string list" where
  \<comment> \<open>\<^verbatim>\<open>subscr[1:-1].split(',')\<close> when \<^verbatim>\<open>subscr\<close> is neither \<^verbatim>\<open>None\<close> nor empty\<close>
  "parseSubscripts subscr =
     (case subscr of
        None \<Rightarrow> []
      | Some b \<Rightarrow> if b = [] then [] else py_split (butlast (drop 1 b)) CHR '','')"

type_synonym family_table = "string \<rightharpoonup> (category \<times> category option)"

type_synonym parse_result = "error + (category \<times> category option \<times> nat)"

text \<open>
  The parsing functions return the category, the variable (\<open>None\<close> for Python's
  \<^verbatim>\<open>None\<close>) and the counter of \<^verbatim>\<open>CCGVar\<close>.
\<close>

definition parsePrimitiveCategory ::
  "string \<times> string option \<Rightarrow> string list \<Rightarrow> family_table \<Rightarrow> category option \<Rightarrow> nat
     \<Rightarrow> parse_result" where
  "parsePrimitiveCategory chunks primitives families var maxID =
     (if fst chunks = ''var'' \<and> snd chunks = None then
        (case var of
           None \<Rightarrow> Inr (CCGVar maxID, Some (CCGVar maxID), Suc maxID)
         | Some v \<Rightarrow> Inr (v, Some v, maxID))
      else
        (let catstr = fst chunks in
         case families catstr of
           Some (cat, cvar) \<Rightarrow>
             (case var of
                None \<Rightarrow> Inr (cat, cvar, maxID)
              | Some v \<Rightarrow> Inr (substitute cat [(cvar, v)], Some v, maxID))
         | None \<Rightarrow>
             if catstr \<in> set primitives
             then Inr (PrimitiveCategory catstr (parseSubscripts (snd chunks)), var, maxID)
             else Inl UnknownCategoryName))"

definition parse_prim_chunk ::
  "string \<Rightarrow> string list \<Rightarrow> family_table \<Rightarrow> category option \<Rightarrow> nat \<Rightarrow> parse_result" where
  \<comment> \<open>\<^verbatim>\<open>parsePrimitiveCategory(PRIM_RE.match(cat_string).groups(), primitives, families, var)\<close>\<close>
  "parse_prim_chunk cat_string primitives families var maxID =
     (case PRIM_RE cat_string of
        None \<Rightarrow> Inl MalformedCategory
      | Some chunks \<Rightarrow> parsePrimitiveCategory chunks primitives families var maxID)"

text \<open>
  What the tokenizer returns is shorter than what it was given: the parser below
  terminates.
\<close>

lemma mb_loop_result:
  "matchBrackets s = Inr (p, r) \<Longrightarrow> \<exists>q. p = CHR ''('' # q \<and> q \<noteq> [] \<and> q @ r = drop 1 s"
  "mb_loop rest inside = Inr (p, r) \<Longrightarrow> \<exists>q. p = inside @ q \<and> q \<noteq> [] \<and> q @ r = rest"
proof (induction s and rest inside arbitrary: p r and p r rule: matchBrackets_mb_loop.induct)
  case (1 string)
  from 1(2) have "mb_loop (drop 1 string) ''('' = Inr (p, r)"
    by (simp add: matchBrackets.simps)
  from 1(1)[OF this] show ?case by simp
next
  case (2 rest inside)
  show ?case
  proof (cases "rest \<noteq> [] \<and> hd rest \<noteq> CHR '')''")
    case go: True
    show ?thesis
    proof (cases "hd rest = CHR ''(''")
      case True
      with go 2(4) obtain part rest' where
        m: "matchBrackets rest = Inr (part, rest')" and
        l: "mb_loop rest' (inside @ part) = Inr (p, r)"
        by (subst (asm) mb_loop.simps) (auto split: sum.splits)
      from 2(1)[OF go True m] obtain q1 where
        q1: "part = CHR ''('' # q1" "q1 @ rest' = drop 1 rest" by blast
      from go True have "CHR ''('' # drop 1 rest = rest" by (cases rest) auto
      with q1 have r: "part @ rest' = rest" by simp
      from 2(2)[OF go True m refl l] obtain q2 where
        q2: "p = (inside @ part) @ q2" "q2 \<noteq> []" "q2 @ r = rest'" by blast
      from q1(1) q2 r have "p = inside @ (part @ q2) \<and> part @ q2 \<noteq> [] \<and> (part @ q2) @ r = rest"
        by simp
      then show ?thesis by blast
    next
      case False
      with go 2(4) have "mb_loop (tl rest) (inside @ [hd rest]) = Inr (p, r)"
        by (subst (asm) mb_loop.simps) simp
      from 2(3)[OF go False this] obtain q where
        q: "p = (inside @ [hd rest]) @ q" "q \<noteq> []" "q @ r = tl rest" by blast
      with go have "p = inside @ (hd rest # q) \<and> hd rest # q \<noteq> [] \<and> (hd rest # q) @ r = rest"
        by (cases rest) auto
      then show ?thesis by blast
    qed
  next
    case False
    with 2(4) have "rest \<noteq> []" "hd rest = CHR '')''" "p = inside @ '')''" "r = tl rest"
      by (subst (asm) mb_loop.simps; simp split: if_splits)+
    then have "p = inside @ '')'' \<and> '')'' \<noteq> [] \<and> '')'' @ r = rest"
      by (cases rest) auto
    then show ?thesis by blast
  qed
qed

lemma matchBrackets_concat:
  assumes "matchBrackets s = Inr (p, r)"
  shows "p @ r = CHR ''('' # drop 1 s" and "p \<noteq> []"
  using mb_loop_result(1)[OF assms] by auto

lemma subscr_group_concat:
  assumes "subscr_group s = Some (b, r)"
  shows "b @ r = s"
proof -
  from assms obtain c t where s: "s = c # t" by (cases s) (auto simp: subscr_group_def)
  let ?body = "takeWhile is_subscr_char t" and ?t' = "dropWhile is_subscr_char t"
  from assms s have c: "?t' \<noteq> []" "hd ?t' = CHR '']''"
    and b: "b = c # ?body @ '']''" and r: "r = tl ?t'"
    by (auto simp: subscr_group_def Let_def split: if_splits)
  from c have "'']'' @ tl ?t' = ?t'" by (cases ?t') auto
  then have "(?body @ '']'') @ tl ?t' = ?body @ ?t'" by simp
  also have "\<dots> = t" by simp
  finally show ?thesis using b r s by simp
qed

lemma takeWhile_not_newline_length: "length (takeWhile not_newline xs) \<le> length xs"
  by (rule length_takeWhile_le)

lemma NEXTPRIM_RE_length:
  assumes "NEXTPRIM_RE s = Some (cs, r)"
  shows "cs \<noteq> []" and "length cs + length r \<le> length s"
proof -
  let ?n = "takeWhile is_letter s" and ?d = "dropWhile is_letter s"
  have "?n @ ?d = s" by simp
  then have s: "length ?n + length ?d = length s" by (metis length_append)
  from assms have n: "?n \<noteq> []"
    by (cases "?n = []") (simp_all add: NEXTPRIM_RE_def Let_def)
  have "cs \<noteq> [] \<and> length cs + length r \<le> length s"
  proof (cases "subscr_group ?d")
    case None
    with assms n have "cs = ?n" "r = takeWhile not_newline ?d"
      by (simp_all add: NEXTPRIM_RE_def Let_def)
    with s n takeWhile_not_newline_length[of ?d] show ?thesis by simp
  next
    case (Some br)
    obtain b r' where br: "br = (b, r')" by (cases br)
    from subscr_group_concat[of ?d b r'] Some br have "b @ r' = ?d" by simp
    then have "length b + length r' = length ?d" by (metis length_append)
    moreover from assms n Some br have "cs = ?n @ b" "r = takeWhile not_newline r'"
      by (simp_all add: NEXTPRIM_RE_def Let_def)
    ultimately show ?thesis using s n takeWhile_not_newline_length[of r'] by simp
  qed
  then show "cs \<noteq> []" and "length cs + length r \<le> length s" by simp_all
qed

lemma nextCategory_length:
  assumes "nextCategory s = Inr (cs, r)"
  shows "cs \<noteq> []" and "length cs + length r \<le> length s"
proof -
  have "cs \<noteq> [] \<and> length cs + length r \<le> length s"
  proof (cases "startswith s ''(''")
    case True
    then have "CHR ''('' # drop 1 s = s" by (cases s) (auto simp: startswith_def)
    moreover from True assms have m: "matchBrackets s = Inr (cs, r)"
      by (simp add: nextCategory_def)
    ultimately have "cs @ r = s" "cs \<noteq> []" using matchBrackets_concat[OF m] by simp_all
    then show ?thesis by (metis length_append order_refl)
  next
    case False
    with assms have "NEXTPRIM_RE s = Some (cs, r)"
      by (simp add: nextCategory_def split: option.splits)
    then show ?thesis using NEXTPRIM_RE_length by simp
  qed
  then show "cs \<noteq> []" and "length cs + length r \<le> length s" by simp_all
qed

lemma opt_modifier_length: "opt_modifier s = (m, t) \<Longrightarrow> length t \<le> length s"
  by (cases s) (auto simp: opt_modifier_def split: if_splits)

lemma APP_RE_length:
  assumes "APP_RE s = Some (a, b, c, r)"
  shows "length r < length s"
proof -
  from assms obtain x t where s: "s = x # t" by (cases s) (auto simp: APP_RE_def)
  obtain m1 t1 where o1: "opt_modifier t = (m1, t1)" by (cases "opt_modifier t")
  obtain m2 t2 where o2: "opt_modifier t1 = (m2, t2)" by (cases "opt_modifier t1")
  from assms s o1 o2 have "r = takeWhile not_newline t2"
    by (simp add: APP_RE_def split: if_splits)
  then have "length r \<le> length t2" by (simp add: takeWhile_not_newline_length)
  with opt_modifier_length[OF o1] opt_modifier_length[OF o2] s show ?thesis by simp
qed

text \<open>
  \<^verbatim>\<open>augParseCategory(line, primitives, families, var)\<close>; \<open>parse_loop\<close> is its \<^verbatim>\<open>while\<close> loop
  and the \<^verbatim>\<open>return\<close> after it, on the variables \<^verbatim>\<open>res\<close>, \<^verbatim>\<open>var\<close> and \<^verbatim>\<open>rest\<close>.
\<close>

function augParseCategory ::
    "string \<Rightarrow> string list \<Rightarrow> family_table \<Rightarrow> category option \<Rightarrow> nat \<Rightarrow> parse_result"
  and parse_loop ::
    "category \<Rightarrow> category option \<Rightarrow> string \<Rightarrow> string list \<Rightarrow> family_table \<Rightarrow> nat \<Rightarrow> parse_result"
  where
  "augParseCategory line primitives families var maxID =
     (case nextCategory line of
        Inl e \<Rightarrow> Inl e
      | Inr (cat_string, rest) \<Rightarrow>
          (case (if startswith cat_string ''(''
                 then augParseCategory (butlast (drop 1 cat_string)) primitives families var maxID
                 else parse_prim_chunk cat_string primitives families var maxID) of
             Inl e \<Rightarrow> Inl e
           | Inr (res, var', maxID') \<Rightarrow> parse_loop res var' rest primitives families maxID'))"
| "parse_loop res var rest primitives families maxID =
     (if rest \<noteq> [] then
        (case APP_RE rest of
           None \<Rightarrow> Inl MalformedCategory
         | Some (slash, m1, m2, rest1) \<Rightarrow>
             (let direction = parseApplication (slash, m1, m2) in
              case nextCategory rest1 of
                Inl e \<Rightarrow> Inl e
              | Inr (cat_string, rest2) \<Rightarrow>
                  (case (if startswith cat_string ''(''
                         then augParseCategory (butlast (drop 1 cat_string)) primitives families
                                var maxID
                         else parse_prim_chunk cat_string primitives families var maxID) of
                     Inl e \<Rightarrow> Inl e
                   | Inr (arg, var', maxID') \<Rightarrow>
                       parse_loop (FunctionalCategory res arg direction) var' rest2
                         primitives families maxID')))
      else Inr (res, var, maxID))"
  by pat_completeness auto
termination
proof (relation "measure (\<lambda>x. case x of
          Inl (line, _) \<Rightarrow> length line
        | Inr (_, _, rest, _) \<Rightarrow> length rest)", goal_cases)
  case 1
  show ?case by simp
next
  case (2 line primitives families var maxID b x y)
  then have "nextCategory line = Inr (x, y)" by simp
  from nextCategory_length[OF this] show ?case by (cases x) simp_all
next
  case (3 line primitives families var maxID b x y ba xa ya xb yb)
  then have "nextCategory line = Inr (x, y)" by simp
  from nextCategory_length[OF this] show ?case by (cases x) simp_all
next
  case (4 res var rest primitives families maxID x2 x y xa ya xb yb xc b xd yc)
  then have "APP_RE rest = Some (x, xa, xb, yb)" "nextCategory yb = Inr (xd, yc)"
    by auto
  from APP_RE_length[OF this(1)] nextCategory_length[OF this(2)] show ?case
    by (cases xd) simp_all
next
  case (5 res var rest primitives families maxID x2 x y xa ya xb yb xc b xd yc ba xe yd xf ye)
  then have "APP_RE rest = Some (x, xa, xb, yb)" "nextCategory yb = Inr (xd, yc)"
    by auto
  from APP_RE_length[OF this(1)] nextCategory_length[OF this(2)] show ?case by simp
qed

declare augParseCategory.simps [simp del] parse_loop.simps [simp del]

definition parseCategory :: "string \<Rightarrow> string list \<Rightarrow> family_table \<Rightarrow> nat \<Rightarrow> error + category" where
  \<comment> \<open>\<^verbatim>\<open>augParseCategory(line, primitives, families)[0]\<close>\<close>
  "parseCategory line primitives families maxID =
     (case augParseCategory line primitives families None maxID of
        Inl e \<Rightarrow> Inl e
      | Inr (cat, var, maxID') \<Rightarrow> Inr cat)"

subsection \<open>Lexicons\<close>

text \<open>
  The class \<^verbatim>\<open>CCGLexicon\<close>.  Its \<^verbatim>\<open>_entries\<close> is a \<^verbatim>\<open>defaultdict(list)\<close>: a list of the
  keys with their values, in the order in which the keys were inserted, which is the order
  in which Python (from 3.7 on) iterates over it.  \<open>dd_getitem\<close> is \<^verbatim>\<open>d[key]\<close>, which
  inserts a missing key with the value \<^verbatim>\<open>[]\<close>, and \<open>dd_append\<close> is
  \<^verbatim>\<open>d[key].append(x)\<close>.  The families are a \<^verbatim>\<open>dict\<close> that is only looked up and
  stored into: a map.
\<close>

type_synonym entry_table = "(string \<times> category list) list"

record CCGLexicon =
  lex_start :: category
  lex_primitives :: "string list"
  lex_families :: family_table
  lex_entries :: entry_table

definition dd_getitem :: "entry_table \<Rightarrow> string \<Rightarrow> category list \<times> entry_table" where
  "dd_getitem d key =
     (case map_of d key of
        Some v \<Rightarrow> (v, d)
      | None \<Rightarrow> ([], d @ [(key, [])]))"

definition dd_append :: "entry_table \<Rightarrow> string \<Rightarrow> category \<Rightarrow> entry_table" where
  "dd_append d key x =
     (let (v, d') = dd_getitem d key
      in map (\<lambda>(k, w). if k = key then (k, w @ [x]) else (k, w)) d')"

text \<open>A method returns its value and the lexicon as the call leaves it.\<close>

definition categories :: "CCGLexicon \<Rightarrow> string \<Rightarrow> category list \<times> CCGLexicon" where
  "categories self word =
     (let (v, d') = dd_getitem (lex_entries self) word
      in (v, self\<lparr>lex_entries := d'\<rparr>))"

definition start :: "CCGLexicon \<Rightarrow> category \<times> CCGLexicon" where
  "start self = (lex_start self, self)"

text \<open>
  \<^verbatim>\<open>__str__\<close>, for a given rendering \<open>str_of\<close> of a category (\<^verbatim>\<open>"%s" % cat\<close>, of
  \<^verbatim>\<open>nltk.ccg.api\<close>).  Both loops use the one variable \<^verbatim>\<open>first\<close>; a loop is a function
  on the pair of \<^verbatim>\<open>string\<close> and \<^verbatim>\<open>first\<close>.
\<close>

fun str_cats :: "(category \<Rightarrow> string) \<Rightarrow> category list \<Rightarrow> string \<times> bool \<Rightarrow> string \<times> bool" where
  "str_cats str_of [] (string, first) = (string, first)"
| "str_cats str_of (cat # cats) (string, first) =
     str_cats str_of cats ((if \<not> first then string @ '' | '' else string) @ str_of cat, False)"

fun str_entries :: "(category \<Rightarrow> string) \<Rightarrow> entry_table \<Rightarrow> string \<times> bool \<Rightarrow> string \<times> bool" where
  "str_entries str_of [] (string, first) = (string, first)"
| "str_entries str_of ((ident, cats) # es) (string, first) =
     str_entries str_of es
       (str_cats str_of cats
          ((if \<not> first then string @ [CHR 0x0A] else string) @ ident @ '' => '', True))"

definition CCGLexicon_str :: "(category \<Rightarrow> string) \<Rightarrow> CCGLexicon \<Rightarrow> string" where
  "CCGLexicon_str str_of self = fst (str_entries str_of (lex_entries self) ([], True))"

subsection \<open>Building a lexicon\<close>

text \<open>
  The local variables of \<^verbatim>\<open>fromstring\<close>, with the counter of \<^verbatim>\<open>CCGVar\<close>.  \<open>process_line\<close>
  is the body of its loop, \<open>fromstring_loop\<close> the loop.  \<open>fromstring\<close> takes the counter
  at the call and returns the lexicon with the counter after it; when it raises, the result
  is the error alone.
\<close>

record build_state =
  st_primitives :: "string list"
  st_families :: family_table
  st_entries :: entry_table
  st_maxID :: nat

definition process_line :: "build_state \<Rightarrow> string \<Rightarrow> error + build_state" where
  "process_line st line0 =
     (let line = strip (COMMENTS_RE line0) in
      if line = [] then Inr st
      else if startswith line '':-'' then
        Inr (st\<lparr>st_primitives :=
                   st_primitives st @ map strip (py_split (strip (drop 2 line)) CHR '','')\<rparr>)
      else
        (case LEX_RE line of
           None \<Rightarrow> Inl MalformedLexiconLine
         | Some (ident, sep, catstr) \<Rightarrow>
             (case augParseCategory catstr (st_primitives st) (st_families st) None (st_maxID st) of
                Inl e \<Rightarrow> Inl e
              | Inr (cat, var, maxID') \<Rightarrow>
                  if sep = ''::'' then
                    Inr (st\<lparr>st_families := (st_families st)(ident \<mapsto> (cat, var)),
                            st_maxID := maxID'\<rparr>)
                  else
                    Inr (st\<lparr>st_entries := dd_append (st_entries st) ident cat,
                            st_maxID := maxID'\<rparr>))))"

fun fromstring_loop :: "build_state \<Rightarrow> string list \<Rightarrow> error + build_state" where
  "fromstring_loop st [] = Inr st"
| "fromstring_loop st (line # lines) =
     (case process_line st line of
        Inl e \<Rightarrow> Inl e
      | Inr st' \<Rightarrow> fromstring_loop st' lines)"

definition initial_state :: "nat \<Rightarrow> build_state" where
  "initial_state maxID =
     \<lparr>st_primitives = [], st_families = Map.empty, st_entries = [], st_maxID = maxID\<rparr>"

definition fromstring :: "nat \<Rightarrow> string \<Rightarrow> error + (CCGLexicon \<times> nat)" where
  "fromstring maxID lex_str =
     (case fromstring_loop (initial_state maxID) (splitlines lex_str) of
        Inl e \<Rightarrow> Inl e
      | Inr st \<Rightarrow>
          (case st_primitives st of
             [] \<Rightarrow> Inl NoPrimitivesDeclared
           | p # _ \<Rightarrow>
               Inr (\<lparr>lex_start = PrimitiveCategory p [],
                     lex_primitives = st_primitives st,
                     lex_families = st_families st,
                     lex_entries = st_entries st\<rparr>, st_maxID st)))"

definition categories_of_source :: "nat \<Rightarrow> string \<Rightarrow> string \<Rightarrow> error + category list" where
  \<comment> \<open>\<^verbatim>\<open>fromstring(lex_str).categories(word)\<close>\<close>
  "categories_of_source maxID lex_str word =
     (case fromstring maxID lex_str of
        Inl e \<Rightarrow> Inl e
      | Inr (lexicon, maxID') \<Rightarrow> Inr (fst (categories lexicon word)))"

section \<open>Definitions that follow the specification\<close>

text \<open>
  The bracket that matches by nesting depth: \<open>close_index depth s\<close> is the index in \<open>s\<close> of
  the first \<^verbatim>\<open>)\<close> met at depth \<open>depth\<close>, where a \<^verbatim>\<open>(\<close> opens a level and a \<^verbatim>\<open>)\<close> met
  deeper closes one.  For a string \<^verbatim>\<open>(\<close>\<open>t\<close> the bracket matching the first one is at
  \<open>close_index 0 t\<close> in \<open>t\<close>.
\<close>

fun close_index :: "nat \<Rightarrow> string \<Rightarrow> nat option" where
  "close_index depth [] = None"
| "close_index depth (c # cs) =
     (if c = CHR '')'' then
        (if depth = 0 then Some 0 else map_option Suc (close_index (depth - 1) cs))
      else if c = CHR ''('' then map_option Suc (close_index (Suc depth) cs)
      else map_option Suc (close_index depth cs))"

text \<open>
  Written as they were: \<open>comma_join\<close> puts a comma between the pieces of a subscript list.
\<close>

fun comma_join :: "string list \<Rightarrow> string" where
  "comma_join [] = []"
| "comma_join [x] = x"
| "comma_join (x # y # ys) = x @ '','' @ comma_join (y # ys)"

text \<open>
  The lines of a lexicon source.  \<open>clean\<close> strips the comment and the white space around
  the line.  A line is blank, or a declaration of primitives (\<^verbatim>\<open>:-\<close>), or a definition
  \<^verbatim>\<open><identifier> <separator> <categoryText>\<close> (of a family when the separator is \<^verbatim>\<open>::\<close>, of
  a word otherwise), or it is malformed.
\<close>

definition clean :: "string \<Rightarrow> string" where
  "clean line0 = strip (COMMENTS_RE line0)"

definition is_declaration :: "string \<Rightarrow> bool" where
  "is_declaration line0 = startswith (clean line0) '':-''"

definition declared_names :: "string \<Rightarrow> string list" where
  "declared_names line0 = map strip (py_split (strip (drop 2 (clean line0))) CHR '','')"

definition definition_of :: "string \<Rightarrow> (string \<times> string \<times> string) option" where
  "definition_of line0 =
     (if clean line0 = [] \<or> is_declaration line0 then None else LEX_RE (clean line0))"

definition is_malformed :: "string \<Rightarrow> bool" where
  "is_malformed line0 =
     (clean line0 \<noteq> [] \<and> \<not> is_declaration line0 \<and> LEX_RE (clean line0) = None)"

definition defines_family :: "string \<Rightarrow> string \<Rightarrow> bool" where
  "defines_family ident line0 =
     (case definition_of line0 of
        None \<Rightarrow> False
      | Some (i, sep, catstr) \<Rightarrow> i = ident \<and> sep = ''::'')"

definition defines_word :: "string \<Rightarrow> string \<Rightarrow> bool" where
  "defines_word word line0 =
     (case definition_of line0 of
        None \<Rightarrow> False
      | Some (i, sep, catstr) \<Rightarrow> i = word \<and> sep \<noteq> ''::'')"

text \<open>The errors of parsing a category.\<close>

definition category_error :: "error \<Rightarrow> bool" where
  "category_error e = (e = MalformedCategory \<or> e = UnknownCategoryName)"

text \<open>
  The categories declared for a word, in the order of the lines: \<open>line_category st l\<close> is
  the category that the definition line \<open>l\<close> parses to in the state \<open>st\<close> of the build, and
  \<open>declared_categories word st ls\<close> collects, line after line, the categories of the
  word-entry lines of \<open>ls\<close> for \<open>word\<close>, each parsed in the state that the lines before it
  have produced.
\<close>

definition line_category :: "build_state \<Rightarrow> string \<Rightarrow> category option" where
  "line_category st line0 =
     (case definition_of line0 of
        None \<Rightarrow> None
      | Some (ident, sep, catstr) \<Rightarrow>
          (case augParseCategory catstr (st_primitives st) (st_families st) None (st_maxID st) of
             Inl e \<Rightarrow> None
           | Inr (cat, var, maxID') \<Rightarrow> Some cat))"

fun declared_categories :: "string \<Rightarrow> build_state \<Rightarrow> string list \<Rightarrow> category list" where
  "declared_categories word st [] = []"
| "declared_categories word st (line0 # lines) =
     (case process_line st line0 of
        Inl e \<Rightarrow> []
      | Inr st' \<Rightarrow>
          (if defines_word word line0
           then (case line_category st line0 of None \<Rightarrow> [] | Some cat \<Rightarrow> [cat])
           else [])
          @ declared_categories word st' lines)"

text \<open>
  \<open>line_family st l\<close> is the pair of category and variable that the definition line \<open>l\<close>
  parses to in the state \<open>st\<close> of the build.
\<close>

definition line_family :: "build_state \<Rightarrow> string \<Rightarrow> (category \<times> category option) option" where
  "line_family st line0 =
     (case definition_of line0 of
        None \<Rightarrow> None
      | Some (ident, sep, catstr) \<Rightarrow>
          (case augParseCategory catstr (st_primitives st) (st_families st) None (st_maxID st) of
             Inl e \<Rightarrow> None
           | Inr (cat, var, maxID') \<Rightarrow> Some (cat, var)))"

section \<open>Bracket matching\<close>

lemma close_index_less: "close_index d s = Some i \<Longrightarrow> i < length s"
  by (induction d s arbitrary: i rule: close_index.induct) (auto split: if_splits)

lemma close_index_Suc:
  "close_index (Suc d) s =
     (case close_index 0 s of
        None \<Rightarrow> None
      | Some j \<Rightarrow> map_option (\<lambda>k. Suc (j + k)) (close_index d (drop (Suc j) s)))"
proof (induction s arbitrary: d rule: length_induct)
  case (1 s)
  show ?case
  proof (cases s)
    case Nil
    then show ?thesis by simp
  next
    case (Cons c cs)
    have ih: "close_index (Suc e) t =
        (case close_index 0 t of
           None \<Rightarrow> None
         | Some j \<Rightarrow> map_option (\<lambda>k. Suc (j + k)) (close_index e (drop (Suc j) t)))"
      if "length t \<le> length cs" for t e
      using 1 that Cons by simp
    consider (close) "c = CHR '')''" | (opn) "c = CHR ''(''"
      | (other) "c \<noteq> CHR '')''" "c \<noteq> CHR ''(''" by blast
    then show ?thesis
    proof cases
      case close
      with Cons show ?thesis by (simp add: option.map_comp comp_def)
    next
      case other
      with Cons ih[of cs d] show ?thesis
        by (simp add: option.map_comp comp_def split: option.splits)
    next
      case opn
      show ?thesis
      proof (cases "close_index 0 cs")
        case None
        with opn Cons ih[of cs "Suc d"] ih[of cs 0] show ?thesis by simp
      next
        case (Some j)
        let ?s' = "drop (Suc j) cs"
        have l: "length ?s' \<le> length cs" by simp
        show ?thesis
        proof (cases "close_index 0 ?s'")
          case None
          with Some opn Cons ih[of cs "Suc d"] ih[of cs 0] ih[OF l, of d] show ?thesis by simp
        next
          case k: (Some k)
          have d: "drop (Suc k) ?s' = drop (Suc (Suc (j + k))) cs" by (simp add: add.commute)
          from Some k opn Cons ih[of cs "Suc d"] ih[of cs 0] ih[OF l, of d] d show ?thesis
            by (simp add: option.map_comp comp_def add.assoc)
        qed
      qed
    qed
  qed
qed

lemma mb_loop_close_index:
  "matchBrackets s =
     (case close_index 0 (drop 1 s) of
        None \<Rightarrow> Inl MalformedCategory
      | Some i \<Rightarrow> Inr (CHR ''('' # take (Suc i) (drop 1 s), drop (Suc i) (drop 1 s)))"
  "mb_loop rest inside =
     (case close_index 0 rest of
        None \<Rightarrow> Inl MalformedCategory
      | Some i \<Rightarrow> Inr (inside @ take (Suc i) rest, drop (Suc i) rest))"
proof (induction s and rest inside rule: matchBrackets_mb_loop.induct)
  case (1 string)
  then show ?case by (simp add: matchBrackets.simps split: option.splits)
next
  case (2 rest inside)
  show ?case
  proof (cases rest)
    case Nil
    then show ?thesis by (simp add: mb_loop.simps)
  next
    case (Cons c cs)
    consider (close) "c = CHR '')''" | (opn) "c = CHR ''(''"
      | (other) "c \<noteq> CHR '')''" "c \<noteq> CHR ''(''" by blast
    then show ?thesis
    proof cases
      case close
      with Cons show ?thesis by (simp add: mb_loop.simps)
    next
      case other
      with Cons have go: "rest \<noteq> [] \<and> hd rest \<noteq> CHR '')''" "hd rest \<noteq> CHR ''(''" by simp_all
      from 2(3)[OF go] other Cons show ?thesis
        by (subst mb_loop.simps) (simp split: option.splits)
    next
      case opn
      with Cons have go: "rest \<noteq> [] \<and> hd rest \<noteq> CHR '')''" "hd rest = CHR ''(''" by simp_all
      note m = 2(1)[OF go]
      show ?thesis
      proof (cases "close_index 0 cs")
        case None
        with m Cons opn go show ?thesis
          by (subst mb_loop.simps) (simp add: close_index_Suc[of 0 cs])
      next
        case (Some j)
        let ?part = "CHR ''('' # take (Suc j) cs" and ?rest' = "drop (Suc j) cs"
        from m Some Cons have m': "matchBrackets rest = Inr (?part, ?rest')" by simp
        note l = 2(2)[OF go m' refl]
        have unf: "mb_loop rest inside = mb_loop ?rest' (inside @ ?part)"
          using go m' by (subst mb_loop.simps) simp
        show ?thesis
        proof (cases "close_index 0 ?rest'")
          case None
          with unf l Some Cons opn show ?thesis
            by (simp add: close_index_Suc[of 0 cs])
        next
          case k: (Some k)
          have t: "take (Suc (Suc (j + k))) cs = take (Suc j) cs @ take (Suc k) ?rest'"
            using take_add[of "Suc j" "Suc k" cs] by simp
          have d: "drop (Suc k) ?rest' = drop (Suc (Suc (j + k))) cs" by (simp add: add.commute)
          from unf l Some k Cons opn t d show ?thesis
            by (simp add: close_index_Suc[of 0 cs])
        qed
      qed
    qed
  qed
qed

text \<open>
  Claim C6.  For a string whose first character is \<^verbatim>\<open>(\<close>: when the string has the \<^verbatim>\<open>)\<close>
  that matches this bracket by nesting depth, \<open>matchBrackets\<close> returns the text from the first
  bracket to the matching one, both included, and the text after it, and the two parts
  concatenate to the string; when the string ends before the matching bracket,
  \<open>matchBrackets\<close> fails with \<open>MalformedCategory\<close>.
\<close>

theorem matchBrackets_matching:
  "matchBrackets (CHR ''('' # t) =
     (case close_index 0 t of
        None \<Rightarrow> Inl MalformedCategory
      | Some i \<Rightarrow> Inr (CHR ''('' # take (Suc i) t, drop (Suc i) t))
   \<and> (\<forall>inside rest. matchBrackets (CHR ''('' # t) = Inr (inside, rest) \<longrightarrow>
         inside @ rest = CHR ''('' # t)"
  using mb_loop_close_index(1)[of "CHR ''('' # t"] by (auto split: option.splits)

theorem matchBrackets_matching_witness:
  "matchBrackets ''(a(b)c)/d)'' = Inr (''(a(b)c)'', ''/d)'')
   \<and> ''(a(b)c)'' @ ''/d)'' = ''(a(b)c)/d)''
   \<and> matchBrackets ''(a(b)c'' = Inl MalformedCategory"
  using matchBrackets_matching[of "''a(b)c)/d)''"] matchBrackets_matching[of "''a(b)c''"]
  by simp

section \<open>The patterns on names and subscripts\<close>

lemma letters_takeWhile:
  assumes "\<forall>c\<in>set a. is_letter c" and "r = [] \<or> \<not> is_letter (hd r)"
  shows "takeWhile is_letter (a @ r) = a" and "dropWhile is_letter (a @ r) = r"
proof -
  from assms(2) have t: "takeWhile is_letter r = []" and d: "dropWhile is_letter r = r"
    by (cases r; simp)+
  from assms(1) show "takeWhile is_letter (a @ r) = a"
    by (simp add: takeWhile_append2 t)
  from assms(1) show "dropWhile is_letter (a @ r) = r"
    by (simp add: dropWhile_append2 d)
qed

lemma not_letter_bracket: "\<not> is_letter CHR ''[''" "\<not> is_letter CHR ''/''"
  "\<not> is_subscr_char CHR '']''" "\<not> is_letter CHR ''(''"
  by (simp_all add: is_letter_def is_subscr_char_def)

lemma subscr_group_bracket:
  assumes "body \<noteq> []" and "\<forall>c\<in>set body. is_subscr_char c"
  shows "subscr_group (CHR ''['' # body @ CHR '']'' # r) = Some (CHR ''['' # body @ '']'', r)"
proof -
  from assms(2) have "takeWhile is_subscr_char (body @ CHR '']'' # r) = body"
    and "dropWhile is_subscr_char (body @ CHR '']'' # r) = CHR '']'' # r"
    by (simp_all add: takeWhile_append2 dropWhile_append2 not_letter_bracket)
  with assms(1) show ?thesis by (simp add: subscr_group_def not_letter_bracket)
qed

lemma subscr_group_none: "r = [] \<or> hd r \<noteq> CHR ''['' \<Longrightarrow> subscr_group r = None"
  by (cases r) (auto simp: subscr_group_def Let_def)

lemma PRIM_RE_name:
  assumes "a \<noteq> []" and "\<forall>c\<in>set a. is_letter c"
  shows "PRIM_RE a = Some (a, None)"
proof -
  from assms(2) have t: "takeWhile is_letter a = a" and d: "dropWhile is_letter a = []"
    using letters_takeWhile[of a "[]"] by simp_all
  show ?thesis unfolding PRIM_RE_def Let_def t d using assms(1)
    by (simp add: subscr_group_none)
qed

lemma PRIM_RE_subscr:
  assumes "a \<noteq> []" and "\<forall>c\<in>set a. is_letter c"
    and "body \<noteq> []" and "\<forall>c\<in>set body. is_subscr_char c"
  shows "PRIM_RE (a @ CHR ''['' # body @ '']'') = Some (a, Some (CHR ''['' # body @ '']''))"
proof -
  let ?r = "CHR ''['' # body @ '']''"
  from assms(2) have "takeWhile is_letter (a @ ?r) = a" "dropWhile is_letter (a @ ?r) = ?r"
    using letters_takeWhile[of a ?r] by (simp_all add: not_letter_bracket)
  with assms(1) subscr_group_bracket[OF assms(3,4), of "[]"] show ?thesis
    by (simp add: PRIM_RE_def)
qed

lemma NEXTPRIM_RE_name:
  assumes "a \<noteq> []" and "\<forall>c\<in>set a. is_letter c"
    and "r = [] \<or> (\<not> is_letter (hd r) \<and> hd r \<noteq> CHR ''['')"
  shows "NEXTPRIM_RE (a @ r) = Some (a, takeWhile not_newline r)"
proof -
  from assms(2,3) have "takeWhile is_letter (a @ r) = a" "dropWhile is_letter (a @ r) = r"
    using letters_takeWhile[of a r] by auto
  moreover from assms(3) have "subscr_group r = None" by (auto intro: subscr_group_none)
  ultimately show ?thesis using assms(1) by (simp add: NEXTPRIM_RE_def)
qed

lemma NEXTPRIM_RE_subscr:
  assumes "a \<noteq> []" and "\<forall>c\<in>set a. is_letter c"
    and "body \<noteq> []" and "\<forall>c\<in>set body. is_subscr_char c"
  shows "NEXTPRIM_RE (a @ CHR ''['' # body @ CHR '']'' # r) =
           Some (a @ CHR ''['' # body @ '']'', takeWhile not_newline r)"
proof -
  let ?r = "CHR ''['' # body @ CHR '']'' # r"
  from assms(2) have "takeWhile is_letter (a @ ?r) = a" "dropWhile is_letter (a @ ?r) = ?r"
    using letters_takeWhile[of a ?r] by (simp_all add: not_letter_bracket)
  with assms(1) subscr_group_bracket[OF assms(3,4), of r] show ?thesis
    by (simp add: NEXTPRIM_RE_def)
qed

lemma letters_not_startswith_paren:
  assumes "a \<noteq> []" and "\<forall>c\<in>set a. is_letter c"
  shows "\<not> startswith (a @ r) ''(''"
  using assms by (cases a) (auto simp: startswith_def not_letter_bracket)

lemma parse_loop_Nil: "parse_loop res var [] primitives families maxID = Inr (res, var, maxID)"
  by (simp add: parse_loop.simps)

lemma augParseCategory_name:
  assumes "a \<noteq> []" and "\<forall>c\<in>set a. is_letter c"
  shows "augParseCategory a primitives families var maxID =
           parsePrimitiveCategory (a, None) primitives families var maxID"
proof -
  from assms NEXTPRIM_RE_name[of a "[]"] letters_not_startswith_paren[of a "[]"]
  have "nextCategory a = Inr (a, [])" "\<not> startswith a ''(''"
    by (simp_all add: nextCategory_def)
  with PRIM_RE_name[OF assms] show ?thesis
    by (subst augParseCategory.simps)
       (simp add: parse_prim_chunk_def parse_loop_Nil split: sum.splits)
qed

lemma augParseCategory_subscr:
  assumes "a \<noteq> []" and "\<forall>c\<in>set a. is_letter c"
    and "body \<noteq> []" and "\<forall>c\<in>set body. is_subscr_char c"
  shows "augParseCategory (a @ CHR ''['' # body @ '']'') primitives families var maxID =
           parsePrimitiveCategory (a, Some (CHR ''['' # body @ '']'')) primitives families var maxID"
proof -
  let ?s = "a @ CHR ''['' # body @ '']''"
  from assms NEXTPRIM_RE_subscr[of a body "[]"] letters_not_startswith_paren[of a]
  have "nextCategory ?s = Inr (?s, [])" "\<not> startswith ?s ''(''"
    by (simp_all add: nextCategory_def)
  with PRIM_RE_subscr[OF assms] show ?thesis
    by (subst augParseCategory.simps)
       (simp add: parse_prim_chunk_def parse_loop_Nil split: sum.splits)
qed

lemma var_letters: "\<forall>c\<in>set ''var''. is_letter c"
  by (simp add: is_letter_def)

text \<open>The definitions to unfold when a category text is a literal.\<close>

lemmas regex_eval = nextCategory_def NEXTPRIM_RE_def APP_RE_def opt_modifier_def
  subscr_group_def startswith_def is_letter_def not_newline_def parseApplication_def
  matchBrackets.simps mb_loop.simps


text \<open>A reference to a family, with no variable bound and with one.\<close>

lemma family_reference:
  assumes "a \<noteq> []" and "\<forall>c\<in>set a. is_letter c" and "a \<noteq> ''var''"
    and "families a = Some (cat, cvar)"
  shows "augParseCategory a primitives families None maxID = Inr (cat, cvar, maxID)"
    and "augParseCategory a primitives families (Some v) maxID =
           Inr (substitute cat [(cvar, v)], Some v, maxID)"
  using assms(3,4) by (simp_all add: augParseCategory_name[OF assms(1,2)] parsePrimitiveCategory_def)

section \<open>The token var\<close>

text \<open>
  Claim C10.  The token \<^verbatim>\<open>var\<close> is a unification variable only when it has no subscript
  bracket.  A bare \<^verbatim>\<open>var\<close> yields the variable that is bound, or a new one when none is
  bound, whatever the primitives and the families are (so also when \<^verbatim>\<open>var\<close> is one of
  them); with a bracket, \<^verbatim>\<open>var[...]\<close> goes through the lookup of families and primitives,
  and fails with \<open>UnknownCategoryName\<close> when \<^verbatim>\<open>var\<close> is neither.  \<open>parse_prim_chunk\<close> is
  what the parser calls on every term that is not in brackets.
\<close>

theorem var_token:
  "augParseCategory ''var'' primitives families var maxID =
     (case var of
        None \<Rightarrow> Inr (CCGVar maxID, Some (CCGVar maxID), Suc maxID)
      | Some v \<Rightarrow> Inr (v, Some v, maxID))
   \<and> parse_prim_chunk ''var'' primitives families var maxID =
       augParseCategory ''var'' primitives families var maxID
   \<and> (body \<noteq> [] \<and> (\<forall>c\<in>set body. is_subscr_char c) \<longrightarrow>
        augParseCategory (''var['' @ body @ '']'') primitives families var maxID =
          (case families ''var'' of
             Some (cat, cvar) \<Rightarrow>
               (case var of
                  None \<Rightarrow> Inr (cat, cvar, maxID)
                | Some v \<Rightarrow> Inr (substitute cat [(cvar, v)], Some v, maxID))
           | None \<Rightarrow>
               if ''var'' \<in> set primitives
               then Inr (PrimitiveCategory ''var'' (py_split body CHR '',''), var, maxID)
               else Inl UnknownCategoryName)
        \<and> parse_prim_chunk (''var['' @ body @ '']'') primitives families var maxID =
            augParseCategory (''var['' @ body @ '']'') primitives families var maxID
        \<and> (families ''var'' = None \<and> ''var'' \<notin> set primitives \<longrightarrow>
             augParseCategory (''var['' @ body @ '']'') primitives families var maxID =
               Inl UnknownCategoryName))"
proof -
  have v: "''var'' \<noteq> []" by simp
  have bare: "augParseCategory ''var'' primitives families var maxID =
      parsePrimitiveCategory (''var'', None) primitives families var maxID"
    by (rule augParseCategory_name[OF v var_letters])
  have chunk: "parse_prim_chunk ''var'' primitives families var maxID =
      parsePrimitiveCategory (''var'', None) primitives families var maxID"
    by (simp add: parse_prim_chunk_def PRIM_RE_name[OF v var_letters])
  have sub: "augParseCategory (''var['' @ body @ '']'') primitives families var maxID =
      parsePrimitiveCategory (''var'', Some (CHR ''['' # body @ '']'')) primitives families var maxID"
    and subchunk: "parse_prim_chunk (''var['' @ body @ '']'') primitives families var maxID =
      parsePrimitiveCategory (''var'', Some (CHR ''['' # body @ '']'')) primitives families var maxID"
    if "body \<noteq> []" "\<forall>c\<in>set body. is_subscr_char c"
    using augParseCategory_subscr[OF v var_letters that] PRIM_RE_subscr[OF v var_letters that]
    by (simp_all add: parse_prim_chunk_def)
  have bl: "butlast (body @ '']'') = body" by (simp add: butlast_append)
  show ?thesis
  proof (intro conjI impI)
    show "augParseCategory ''var'' primitives families var maxID =
       (case var of
          None \<Rightarrow> Inr (CCGVar maxID, Some (CCGVar maxID), Suc maxID)
        | Some v \<Rightarrow> Inr (v, Some v, maxID))"
      unfolding bare by (simp add: parsePrimitiveCategory_def split: option.splits)
    show "parse_prim_chunk ''var'' primitives families var maxID =
       augParseCategory ''var'' primitives families var maxID"
      unfolding bare chunk ..
  next
    assume b: "body \<noteq> [] \<and> (\<forall>c\<in>set body. is_subscr_char c)"
    then have b1: "body \<noteq> []" and b2: "\<forall>c\<in>set body. is_subscr_char c" by simp_all
    show "augParseCategory (''var['' @ body @ '']'') primitives families var maxID =
          (case families ''var'' of
             Some (cat, cvar) \<Rightarrow>
               (case var of
                  None \<Rightarrow> Inr (cat, cvar, maxID)
                | Some v \<Rightarrow> Inr (substitute cat [(cvar, v)], Some v, maxID))
           | None \<Rightarrow>
               if ''var'' \<in> set primitives
               then Inr (PrimitiveCategory ''var'' (py_split body CHR '',''), var, maxID)
               else Inl UnknownCategoryName)"
      unfolding sub[OF b1 b2]
      by (simp add: parsePrimitiveCategory_def parseSubscripts_def bl split: option.splits)
    show "parse_prim_chunk (''var['' @ body @ '']'') primitives families var maxID =
            augParseCategory (''var['' @ body @ '']'') primitives families var maxID"
      unfolding sub[OF b1 b2] subchunk[OF b1 b2] ..
    assume "families ''var'' = None \<and> ''var'' \<notin> set primitives"
    then show "augParseCategory (''var['' @ body @ '']'') primitives families var maxID =
               Inl UnknownCategoryName"
      unfolding sub[OF b1 b2] by (simp add: parsePrimitiveCategory_def)
  qed
qed

theorem var_token_witness:
  "augParseCategory ''var'' [''S'', ''var''] [''var'' \<mapsto> (PrimitiveCategory ''S'' [], None)] None 7 =
     Inr (CCGVar 7, Some (CCGVar 7), 8)
   \<and> augParseCategory ''var'' [''S'', ''var''] [''var'' \<mapsto> (PrimitiveCategory ''S'' [], None)]
        (Some (CCGVar 3)) 7 = Inr (CCGVar 3, Some (CCGVar 3), 7)
   \<and> augParseCategory ''var[sg]'' [''S''] Map.empty None 7 = Inl UnknownCategoryName
   \<and> augParseCategory ''var[sg]'' [''S'', ''var''] Map.empty None 7 =
       Inr (PrimitiveCategory ''var'' [''sg''], None, 7)"
proof -
  have b: "''sg'' \<noteq> [] \<and> (\<forall>c\<in>set ''sg''. is_subscr_char c)"
    by (simp add: is_subscr_char_def is_letter_def)
  show ?thesis
    using var_token[of "[''S'', ''var'']" "[''var'' \<mapsto> (PrimitiveCategory ''S'' [], None)]" None 7 "''sg''"]
      var_token[of "[''S'', ''var'']" "[''var'' \<mapsto> (PrimitiveCategory ''S'' [], None)]"
        "Some (CCGVar 3)" 7 "''sg''"]
      var_token[of "[''S'']" Map.empty None 7 "''sg''"]
      var_token[of "[''S'', ''var'']" Map.empty None 7 "''sg''"] b
    by (simp add: py_split_def)
qed

section \<open>Subscripts\<close>

lemma split_aux_not_Nil: "split_aux sep cur s \<noteq> []"
  by (induction s arbitrary: cur) auto

lemma comma_join_Cons: "ys \<noteq> [] \<Longrightarrow> comma_join (x # ys) = x @ '','' @ comma_join ys"
  by (cases ys) auto

lemma comma_join_split_aux: "comma_join (split_aux CHR '','' cur s) = cur @ s"
  by (induction s arbitrary: cur) (auto simp: comma_join_Cons split_aux_not_Nil)

lemma split_aux_no_sep:
  "sep \<notin> set cur \<Longrightarrow> \<forall>x\<in>set (split_aux sep cur s). sep \<notin> set x"
proof (induction s arbitrary: cur)
  case Nil
  then show ?case by simp
next
  case (Cons a s)
  show ?case
  proof (cases "a = sep")
    case True
    with Cons.prems Cons.IH[of "[]"] show ?thesis by simp
  next
    case False
    with Cons.prems Cons.IH[of "cur @ [a]"] show ?thesis by simp
  qed
qed

text \<open>
  Claim C8, as amended.  For a primitive \<open>a\<close> whose name is made of letters and is declared,
  and which is not the name of a family as well, \<open>a\<close>\<^verbatim>\<open>[sg,pl]\<close> parses to the primitive
  category \<open>a\<close> with the subscripts \<^verbatim>\<open>sg\<close>, \<^verbatim>\<open>pl\<close>; with any bracket, the subscripts are the
  bracket's text split at its commas, which are pieces without a comma that give the text
  back when joined by commas, so that order and duplicates are as written; and written with
  no bracket (and not being the token \<^verbatim>\<open>var\<close>) it has no subscript.  The variable and the
  counter are left as they were.
\<close>

theorem subscript_fidelity:
  "(a \<noteq> [] \<and> (\<forall>c\<in>set a. is_letter c) \<and> a \<in> set primitives \<and> families a = None \<longrightarrow>
      augParseCategory (a @ ''[sg,pl]'') primitives families var maxID =
        Inr (PrimitiveCategory a [''sg'', ''pl''], var, maxID)
      \<and> (body \<noteq> [] \<and> (\<forall>c\<in>set body. is_subscr_char c) \<longrightarrow>
           augParseCategory (a @ ''['' @ body @ '']'') primitives families var maxID =
             Inr (PrimitiveCategory a (py_split body CHR '',''), var, maxID))
      \<and> (a \<noteq> ''var'' \<longrightarrow>
           augParseCategory a primitives families var maxID =
             Inr (PrimitiveCategory a [], var, maxID)))
   \<and> comma_join (py_split body CHR '','') = body
   \<and> (\<forall>x\<in>set (py_split body CHR '',''). CHR '','' \<notin> set x)
   \<and> parseSubscripts (Some (''['' @ body @ '']'')) = py_split body CHR '',''
   \<and> parseSubscripts None = []"
proof -
  have bl: "butlast (b @ '']'') = b" for b :: string by (simp add: butlast_append)
  have gen: "augParseCategory (a @ ''['' @ b @ '']'') primitives families var maxID =
             Inr (PrimitiveCategory a (py_split b CHR '',''), var, maxID)"
    if a: "a \<noteq> []" "\<forall>c\<in>set a. is_letter c" "a \<in> set primitives" "families a = None"
      and b: "b \<noteq> []" "\<forall>c\<in>set b. is_subscr_char c" for b
    using augParseCategory_subscr[OF a(1,2) b, of primitives families var maxID] a(3,4)
    by (simp add: parsePrimitiveCategory_def parseSubscripts_def bl)
  have sgpl: "''sg,pl'' \<noteq> []" "\<forall>c\<in>set ''sg,pl''. is_subscr_char c"
    by (simp_all add: is_subscr_char_def is_letter_def)
  have bare: "augParseCategory a primitives families var maxID =
             Inr (PrimitiveCategory a [], var, maxID)"
    if a: "a \<noteq> []" "\<forall>c\<in>set a. is_letter c" "a \<in> set primitives" "families a = None"
      and v: "a \<noteq> ''var''"
    using augParseCategory_name[OF a(1,2), of primitives families var maxID] a(3,4) v
    by (simp add: parsePrimitiveCategory_def parseSubscripts_def)
  have "augParseCategory (a @ ''[sg,pl]'') primitives families var maxID =
        Inr (PrimitiveCategory a [''sg'', ''pl''], var, maxID)"
    if a: "a \<noteq> []" "\<forall>c\<in>set a. is_letter c" "a \<in> set primitives" "families a = None"
    using gen[OF a sgpl] by (simp add: py_split_def)
  moreover have "comma_join (py_split body CHR '','') = body"
    by (simp add: py_split_def comma_join_split_aux)
  moreover have "\<forall>x\<in>set (py_split body CHR '',''). CHR '','' \<notin> set x"
    using split_aux_no_sep[of "CHR '',''" "[]" body] by (simp add: py_split_def)
  moreover have "parseSubscripts (Some (''['' @ body @ '']'')) = py_split body CHR '',''"
    by (simp add: parseSubscripts_def bl)
  moreover have "parseSubscripts None = []" by (simp add: parseSubscripts_def)
  ultimately show ?thesis using gen bare by blast
qed

theorem subscript_fidelity_witness:
  "augParseCategory ''N[sg,pl]'' [''S'', ''N''] Map.empty None 0 =
     Inr (PrimitiveCategory ''N'' [''sg'', ''pl''], None, 0)
   \<and> augParseCategory ''N[pl,pl,sg]'' [''S'', ''N''] Map.empty None 0 =
     Inr (PrimitiveCategory ''N'' [''pl'', ''pl'', ''sg''], None, 0)
   \<and> augParseCategory ''N'' [''S'', ''N''] Map.empty None 0 =
     Inr (PrimitiveCategory ''N'' [], None, 0)
   \<and> comma_join [''pl'', ''pl'', ''sg''] = ''pl,pl,sg''"
proof -
  have a: "''N'' \<noteq> [] \<and> (\<forall>c\<in>set ''N''. is_letter c) \<and> ''N'' \<in> set [''S'', ''N'']
      \<and> Map.empty ''N'' = (None :: (category \<times> category option) option)"
    by (simp add: is_letter_def)
  have b: "''pl,pl,sg'' \<noteq> [] \<and> (\<forall>c\<in>set ''pl,pl,sg''. is_subscr_char c)"
    by (simp add: is_subscr_char_def is_letter_def)
  show ?thesis
    using subscript_fidelity[of "''N''" "[''S'', ''N'']" Map.empty None 0 "''pl,pl,sg''"] a b
    by (simp add: py_split_def)
qed

text \<open>
  The claim as it was written fails for a primitive that is a family too: the family is
  looked up first, and the bracket is dropped.
\<close>

theorem subscript_fidelity_counterexample:
  "categories_of_source 0 '':- S,N\<newline>N :: S\<newline>w => N[sg,pl]'' ''w'' =
     Inr [PrimitiveCategory ''S'' []]"
  by code_simp

section \<open>Left-associative parsing\<close>



















section \<open>The lines of a source\<close>

lemma process_line_blank: "clean l = [] \<Longrightarrow> process_line st l = Inr st"
  by (simp add: process_line_def clean_def)

lemma process_line_declaration:
  "is_declaration l \<Longrightarrow>
   process_line st l = Inr (st\<lparr>st_primitives := st_primitives st @ declared_names l\<rparr>)"
  by (auto simp: process_line_def clean_def is_declaration_def declared_names_def
      startswith_def Let_def)

lemma process_line_malformed: "is_malformed l \<Longrightarrow> process_line st l = Inl MalformedLexiconLine"
  by (simp add: process_line_def is_malformed_def is_declaration_def clean_def Let_def)

lemma process_line_definition:
  "definition_of l = Some (ident, sep, catstr) \<Longrightarrow>
   process_line st l =
     (case augParseCategory catstr (st_primitives st) (st_families st) None (st_maxID st) of
        Inl e \<Rightarrow> Inl e
      | Inr (cat, var, maxID') \<Rightarrow>
          if sep = ''::'' then
            Inr (st\<lparr>st_families := (st_families st)(ident \<mapsto> (cat, var)), st_maxID := maxID'\<rparr>)
          else
            Inr (st\<lparr>st_entries := dd_append (st_entries st) ident cat, st_maxID := maxID'\<rparr>))"
  by (simp add: process_line_def definition_of_def is_declaration_def clean_def Let_def
      split: if_splits)

lemma line_cases:
  obtains (blank) "clean l = []"
  | (decl) "is_declaration l"
  | (malformed) "is_malformed l"
  | (defn) ident sep catstr where "definition_of l = Some (ident, sep, catstr)"
proof (cases "clean l = [] \<or> is_declaration l")
  case True
  then show ?thesis using blank decl by blast
next
  case False
  show ?thesis
  proof (cases "LEX_RE (clean l)")
    case None
    with False malformed show ?thesis by (simp add: is_malformed_def)
  next
    case (Some t)
    with False defn[of "fst t" "fst (snd t)" "snd (snd t)"] show ?thesis
      by (simp add: definition_of_def)
  qed
qed

lemma declaration_not_definition: "is_declaration l \<Longrightarrow> definition_of l = None"
  by (simp add: definition_of_def)

lemma process_line_primitives:
  assumes "process_line st l = Inr st'"
  shows "st_primitives st' =
           st_primitives st @ (if is_declaration l then declared_names l else [])"
proof (cases l rule: line_cases)
  case blank
  then have "\<not> is_declaration l" by (simp add: is_declaration_def startswith_def)
  with assms blank show ?thesis by (simp add: process_line_blank)
next
  case decl
  with assms show ?thesis by (auto simp: process_line_declaration)
next
  case malformed
  with assms show ?thesis by (simp add: process_line_malformed)
next
  case (defn ident sep catstr)
  then have "\<not> is_declaration l" by (auto simp: definition_of_def split: if_splits)
  with assms defn show ?thesis
    by (auto simp: process_line_definition split: sum.splits if_splits)
qed

lemma fromstring_loop_append:
  "fromstring_loop st (xs @ ys) =
     (case fromstring_loop st xs of
        Inl e \<Rightarrow> Inl e
      | Inr st' \<Rightarrow> fromstring_loop st' ys)"
  by (induction xs arbitrary: st) (auto split: sum.splits)

lemma fromstring_loop_primitives:
  "fromstring_loop st ls = Inr st' \<Longrightarrow>
   st_primitives st' = st_primitives st @ concat (map declared_names (filter is_declaration ls))"
proof (induction ls arbitrary: st)
  case Nil
  then show ?case by simp
next
  case (Cons l ls)
  from Cons.prems obtain st1 where
    p: "process_line st l = Inr st1" and r: "fromstring_loop st1 ls = Inr st'"
    by (auto split: sum.splits)
  from Cons.IH[OF r] process_line_primitives[OF p] show ?case by simp
qed

lemma declared_names_not_Nil: "declared_names l \<noteq> []"
  by (simp add: declared_names_def py_split_def split_aux_not_Nil)

lemma fromstring_Inr:
  assumes "fromstring maxID src = Inr (lexicon, maxID')"
  obtains st p ps where "fromstring_loop (initial_state maxID) (splitlines src) = Inr st"
    and "st_primitives st = p # ps"
    and "lexicon = \<lparr>lex_start = PrimitiveCategory p [], lex_primitives = st_primitives st,
           lex_families = st_families st, lex_entries = st_entries st\<rparr>"
    and "maxID' = st_maxID st"
  using assms by (auto simp: fromstring_def split: sum.splits list.splits)

lemma matchBrackets_error:
  "matchBrackets s = Inl e \<Longrightarrow> e = MalformedCategory"
  "mb_loop rest inside = Inl e \<Longrightarrow> e = MalformedCategory"
  using mb_loop_close_index(1)[of s] mb_loop_close_index(2)[of rest inside]
  by (auto split: option.splits)

lemma nextCategory_error: "nextCategory s = Inl e \<Longrightarrow> category_error e"
  using matchBrackets_error(1)[of s e]
  by (auto simp: nextCategory_def category_error_def split: if_splits option.splits)

lemma parse_prim_chunk_error: "parse_prim_chunk s P F var n = Inl e \<Longrightarrow> category_error e"
  by (auto simp: parse_prim_chunk_def parsePrimitiveCategory_def category_error_def Let_def
      split: option.splits if_splits)

lemma augParseCategory_error:
  "augParseCategory line P F var n = Inl e \<Longrightarrow> category_error e"
  "parse_loop res var rest P F n = Inl e \<Longrightarrow> category_error e"
proof (induction line P F var n and res var rest P F n arbitrary: e and e
    rule: augParseCategory_parse_loop.induct)
  case (1 line primitives families var maxID)
  show ?case
  proof (cases "nextCategory line")
    case (Inl e')
    with 1(3) nextCategory_error[of line e'] show ?thesis
      by (simp add: augParseCategory.simps)
  next
    case (Inr p)
    obtain cs rest where p: "p = (cs, rest)" by (cases p)
    let ?t = "if startswith cs ''(''
              then augParseCategory (butlast (drop 1 cs)) primitives families var maxID
              else parse_prim_chunk cs primitives families var maxID"
    show ?thesis
    proof (cases ?t)
      case (Inl e')
      with 1(3) Inr p have "e = e'" by (simp add: augParseCategory.simps)
      moreover have "category_error e'"
      proof (cases "startswith cs ''(''")
        case True
        from Inr p have b: "nextCategory line = Inr (cs, rest)" by simp
        from Inl True 1(1)[OF b refl True] show ?thesis by simp
      next
        case False
        with Inl parse_prim_chunk_error show ?thesis by simp
      qed
      ultimately show ?thesis by simp
    next
      case r: (Inr q)
      obtain res var' maxID' where q: "q = (res, var', maxID')" by (cases q)
      from 1(3) Inr p r q have "parse_loop res var' rest primitives families maxID' = Inl e"
        by (simp add: augParseCategory.simps)
      moreover from Inr p have b: "nextCategory line = Inr (cs, rest)" by simp
      moreover from r q have c: "?t = Inr (res, var', maxID')" by simp
      ultimately show ?thesis using 1(2)[OF b refl c refl refl] by simp
    qed
  qed
next
  case (2 res var rest primitives families maxID)
  show ?case
  proof (cases "rest = []")
    case True
    with 2(3) show ?thesis by (simp add: parse_loop.simps)
  next
    case ne: False
    show ?thesis
    proof (cases "APP_RE rest")
      case None
      with 2(3) ne show ?thesis by (simp add: parse_loop.simps category_error_def)
    next
      case (Some g)
      obtain slash m1 m2 rest1 where g: "g = (slash, m1, m2, rest1)" by (cases g)
      show ?thesis
      proof (cases "nextCategory rest1")
        case (Inl e')
        with 2(3) ne Some g nextCategory_error[of rest1 e'] show ?thesis
          by (simp add: parse_loop.simps)
      next
        case (Inr p)
        obtain cs rest2 where p: "p = (cs, rest2)" by (cases p)
        let ?t = "if startswith cs ''(''
              then augParseCategory (butlast (drop 1 cs)) primitives families var maxID
              else parse_prim_chunk cs primitives families var maxID"
        show ?thesis
        proof (cases ?t)
          case (Inl e')
          with 2(3) ne Some g Inr p have "e = e'" by (simp add: parse_loop.simps)
          moreover have "category_error e'"
          proof (cases "startswith cs ''(''")
            case True
            from Some g have a: "APP_RE rest = Some (slash, m1, m2, rest1)" by simp
            from Inr p have b: "nextCategory rest1 = Inr (cs, rest2)" by simp
            from Inl True 2(1)[OF ne a refl refl refl refl b refl True]
            show ?thesis by simp
          next
            case False
            with Inl parse_prim_chunk_error show ?thesis by simp
          qed
          ultimately show ?thesis by simp
        next
          case r: (Inr q)
          obtain arg var' maxID' where q: "q = (arg, var', maxID')" by (cases q)
          from 2(3) ne Some g Inr p r q
          have "parse_loop (FunctionalCategory res arg (parseApplication (slash, m1, m2))) var'
                  rest2 primitives families maxID' = Inl e"
            by (simp add: parse_loop.simps)
          moreover from Some g have a: "APP_RE rest = Some (slash, m1, m2, rest1)" by simp
          moreover from Inr p have b: "nextCategory rest1 = Inr (cs, rest2)" by simp
          moreover from r q have c: "?t = Inr (arg, var', maxID')" by simp
          ultimately show ?thesis
            using 2(2)[OF ne a refl refl refl refl b refl c refl refl] by simp
        qed
      qed
    qed
  qed
qed

text \<open>The definitions to unfold when a source is a literal.\<close>

lemmas source_eval = fromstring_def initial_state_def splitlines_def process_line_def
  COMMENTS_RE_def strip_def is_space_def is_linebreak_def startswith_def py_split_def
  LEX_RE_def lex_separator_def lex_category_text_def is_word_def not_newline_def Let_def


lemma process_line_error:
  assumes "process_line st l = Inl e"
  shows "e = MalformedLexiconLine \<or> category_error e"
proof (cases l rule: line_cases)
  case blank
  with assms show ?thesis by (simp add: process_line_blank)
next
  case decl
  with assms show ?thesis by (simp add: process_line_declaration)
next
  case malformed
  with assms show ?thesis by (simp add: process_line_malformed)
next
  case (defn ident sep catstr)
  with assms augParseCategory_error(1) show ?thesis
    by (auto simp: process_line_definition split: sum.splits if_splits)
qed

lemma fromstring_loop_error:
  "fromstring_loop st ls = Inl e \<Longrightarrow> e = MalformedLexiconLine \<or> category_error e"
proof (induction ls arbitrary: st)
  case Nil
  then show ?case by simp
next
  case (Cons l ls)
  show ?case
  proof (cases "process_line st l")
    case (Inl e')
    with Cons.prems process_line_error[of st l e'] show ?thesis by simp
  next
    case (Inr st')
    with Cons.prems Cons.IH[of st'] show ?thesis by simp
  qed
qed

section \<open>The start category\<close>

lemma concat_first_declaration:
  assumes "ls = pre @ l # post" and "is_declaration l" and "\<forall>x\<in>set pre. \<not> is_declaration x"
  shows "hd (concat (map declared_names (filter is_declaration ls))) = hd (declared_names l)"
proof -
  from assms(3) have "filter is_declaration pre = []" by (simp add: filter_empty_conv)
  with assms(1,2) show ?thesis by (simp add: declared_names_not_Nil)
qed

text \<open>
  Claim C5.  The primitives of a built lexicon are the names declared by the \<^verbatim>\<open>:-\<close> lines of
  the source, line after line and in the order of each line, every name being a piece
  between commas with the white space around it removed; \<open>start\<close> is the primitive category
  named by the first of them, which is the first name of the first \<^verbatim>\<open>:-\<close> line.  A source
  with a \<^verbatim>\<open>:-\<close> line never fails for want of a primitive.
\<close>

theorem start_is_first_primitive:
  "(fromstring maxID src = Inr (lexicon, maxID') \<longrightarrow>
      lex_primitives lexicon =
        concat (map declared_names (filter is_declaration (splitlines src)))
      \<and> fst (start lexicon) = PrimitiveCategory (hd (lex_primitives lexicon)) []
      \<and> (\<forall>pre l post.
           splitlines src = pre @ l # post \<and> is_declaration l
           \<and> (\<forall>x\<in>set pre. \<not> is_declaration x) \<longrightarrow>
           fst (start lexicon) = PrimitiveCategory (hd (declared_names l)) []))
   \<and> ((\<exists>l\<in>set (splitlines src). is_declaration l) \<longrightarrow>
        fromstring maxID src \<noteq> Inl NoPrimitivesDeclared)"
proof (intro conjI impI)
  assume b: "fromstring maxID src = Inr (lexicon, maxID')"
  then obtain st p ps where
    loop: "fromstring_loop (initial_state maxID) (splitlines src) = Inr st"
    and ps: "st_primitives st = p # ps"
    and lx: "lexicon = \<lparr>lex_start = PrimitiveCategory p [], lex_primitives = st_primitives st,
           lex_families = st_families st, lex_entries = st_entries st\<rparr>"
    by (rule fromstring_Inr)
  from fromstring_loop_primitives[OF loop]
  show prims: "lex_primitives lexicon =
        concat (map declared_names (filter is_declaration (splitlines src)))"
    by (simp add: lx initial_state_def)
  from ps lx show st: "fst (start lexicon) = PrimitiveCategory (hd (lex_primitives lexicon)) []"
    by (simp add: start_def)
  show "\<forall>pre l post.
           splitlines src = pre @ l # post \<and> is_declaration l
           \<and> (\<forall>x\<in>set pre. \<not> is_declaration x) \<longrightarrow>
           fst (start lexicon) = PrimitiveCategory (hd (declared_names l)) []"
    using concat_first_declaration[of "splitlines src"] by (simp add: st prims)
next
  assume d: "\<exists>l\<in>set (splitlines src). is_declaration l"
  show "fromstring maxID src \<noteq> Inl NoPrimitivesDeclared"
  proof
    assume f: "fromstring maxID src = Inl NoPrimitivesDeclared"
    show False
    proof (cases "fromstring_loop (initial_state maxID) (splitlines src)")
      case (Inl e)
      from fromstring_loop_error[OF Inl] have "e \<noteq> NoPrimitivesDeclared"
        by (auto simp: category_error_def)
      with f Inl show False by (simp add: fromstring_def)
    next
      case (Inr st)
      from fromstring_loop_primitives[OF Inr] d have "st_primitives st \<noteq> []"
        by (auto simp: initial_state_def filter_empty_conv declared_names_not_Nil)
      with f Inr show False by (simp add: fromstring_def split: list.splits)
    qed
  qed
qed

lemma two_declarations:
  "fromstring 0 '':- S,NP,N\<newline>:- VP'' =
     Inr (\<lparr>lex_start = PrimitiveCategory ''S'' [], lex_primitives = [''S'', ''NP'', ''N'', ''VP''],
           lex_families = Map.empty, lex_entries = []\<rparr>, 0)"
  by (simp add: source_eval)

theorem start_is_first_primitive_witness:
  "fromstring 0 '':- S,NP,N\<newline>:- VP'' =
     Inr (\<lparr>lex_start = PrimitiveCategory ''S'' [], lex_primitives = [''S'', ''NP'', ''N'', ''VP''],
           lex_families = Map.empty, lex_entries = []\<rparr>, 0)
   \<and> splitlines '':- S,NP,N\<newline>:- VP'' = [] @ '':- S,NP,N'' # ['':- VP'']
   \<and> is_declaration '':- S,NP,N''
   \<and> declared_names '':- S,NP,N'' = [''S'', ''NP'', ''N'']
   \<and> fst (start \<lparr>lex_start = PrimitiveCategory ''S'' [],
             lex_primitives = [''S'', ''NP'', ''N'', ''VP''],
             lex_families = Map.empty, lex_entries = []\<rparr>) = PrimitiveCategory ''S'' []
   \<and> fromstring 0 '':- S,NP,N\<newline>:- VP'' \<noteq> Inl NoPrimitivesDeclared"
proof -
  have s: "splitlines '':- S,NP,N\<newline>:- VP'' = [] @ '':- S,NP,N'' # ['':- VP'']"
    by (simp add: splitlines_def is_linebreak_def)
  have d: "is_declaration '':- S,NP,N''"
    "declared_names '':- S,NP,N'' = [''S'', ''NP'', ''N'']"
    by (simp_all add: is_declaration_def declared_names_def clean_def source_eval)
  from start_is_first_primitive[of 0 "'':- S,NP,N\<newline>:- VP''" _ 0] two_declarations s d
  show ?thesis by simp
qed

section \<open>Malformed lines\<close>

lemma fromstring_loop_aborts:
  assumes "ls = pre @ l # post" and "process_line st1 l = Inl e"
    and "fromstring_loop st pre = Inr st1"
  shows "fromstring_loop st ls = Inl e"
  using assms by (simp add: fromstring_loop_append)

lemma fromstring_loop_malformed:
  "l \<in> set ls \<Longrightarrow> is_malformed l \<Longrightarrow> \<exists>e. fromstring_loop st ls = Inl e"
proof (induction ls arbitrary: st)
  case Nil
  then show ?case by simp
next
  case (Cons x ls)
  show ?case
  proof (cases "process_line st x")
    case (Inl e)
    then show ?thesis by simp
  next
    case (Inr st')
    with Cons.prems have "l \<in> set ls" by (auto simp: process_line_malformed)
    from Cons.IH[OF this Cons.prems(2), of st'] Inr show ?thesis by simp
  qed
qed

text \<open>
  Claim C7, as amended.  A source with a line that is not blank, is not a \<^verbatim>\<open>:-\<close> line and
  does not match \<^verbatim>\<open><identifier> <separator> <categoryText>\<close> builds no lexicon: \<open>fromstring\<close>
  fails.  The error is \<open>MalformedLexiconLine\<close> when the lines before that line are processed
  without error; when one of them fails, the build has stopped there, with that line's
  error.
\<close>

theorem malformed_line_aborts:
  "(l \<in> set (splitlines src) \<and> is_malformed l \<longrightarrow> (\<exists>e. fromstring maxID src = Inl e))
   \<and> (splitlines src = pre @ l # post \<and> is_malformed l
        \<and> fromstring_loop (initial_state maxID) pre = Inr st \<longrightarrow>
        fromstring maxID src = Inl MalformedLexiconLine)
   \<and> (splitlines src = pre @ l # post
        \<and> fromstring_loop (initial_state maxID) pre = Inl e \<longrightarrow>
        fromstring maxID src = Inl e)"
proof (intro conjI impI)
  assume "l \<in> set (splitlines src) \<and> is_malformed l"
  then obtain e where "fromstring_loop (initial_state maxID) (splitlines src) = Inl e"
    using fromstring_loop_malformed by blast
  then show "\<exists>e. fromstring maxID src = Inl e" by (simp add: fromstring_def)
next
  assume h: "splitlines src = pre @ l # post \<and> is_malformed l
        \<and> fromstring_loop (initial_state maxID) pre = Inr st"
  then have "fromstring_loop (initial_state maxID) (splitlines src) = Inl MalformedLexiconLine"
    using fromstring_loop_aborts[of "splitlines src" pre l post st MalformedLexiconLine]
    by (simp add: process_line_malformed)
  then show "fromstring maxID src = Inl MalformedLexiconLine" by (simp add: fromstring_def)
next
  assume h: "splitlines src = pre @ l # post
        \<and> fromstring_loop (initial_state maxID) pre = Inl e"
  then have "fromstring_loop (initial_state maxID) (splitlines src) = Inl e"
    by (simp add: fromstring_loop_append)
  then show "fromstring maxID src = Inl e" by (simp add: fromstring_def)
qed

lemma foo_malformed: "is_malformed ''foo ## N''"
  by (simp add: is_malformed_def is_declaration_def clean_def source_eval)

theorem malformed_line_aborts_witness:
  "splitlines '':- S,N\<newline>dog => N\<newline>foo ## N\<newline>cat => N'' =
     ['':- S,N'', ''dog => N''] @ ''foo ## N'' # [''cat => N'']
   \<and> is_malformed ''foo ## N''
   \<and> \<not> isl (fromstring_loop (initial_state 0) ['':- S,N'', ''dog => N''])
   \<and> fromstring 0 '':- S,N\<newline>dog => N\<newline>foo ## N\<newline>cat => N'' = Inl MalformedLexiconLine
   \<and> splitlines ''x => Q\<newline>foo ## N'' = [''x => Q''] @ ''foo ## N'' # []
   \<and> fromstring_loop (initial_state 0) [''x => Q''] = Inl UnknownCategoryName
   \<and> fromstring 0 ''x => Q\<newline>foo ## N'' = Inl UnknownCategoryName"
proof -
  let ?src = "'':- S,N\<newline>dog => N\<newline>foo ## N\<newline>cat => N''"
  let ?pre = "['':- S,N'', ''dog => N'']"
  have s: "splitlines ?src = ?pre @ ''foo ## N'' # [''cat => N'']"
    by (simp add: splitlines_def is_linebreak_def)
  have r: "\<not> isl (fromstring_loop (initial_state 0) ?pre)" by code_simp
  then obtain st where st: "fromstring_loop (initial_state 0) ?pre = Inr st"
    by (cases "fromstring_loop (initial_state 0) ?pre") auto
  have h: "splitlines ?src = ?pre @ ''foo ## N'' # [''cat => N''] \<and> is_malformed ''foo ## N''
        \<and> fromstring_loop (initial_state 0) ?pre = Inr st"
    using s foo_malformed st by blast
  have a: "fromstring 0 ?src = Inl MalformedLexiconLine"
    by (rule malformed_line_aborts[THEN conjunct2, THEN conjunct1, THEN mp, OF h])
  have s2: "splitlines ''x => Q\<newline>foo ## N'' = [''x => Q''] @ ''foo ## N'' # []"
    by (simp add: splitlines_def is_linebreak_def)
  have "map_sum id st_maxID (fromstring_loop (initial_state 0) [''x => Q'']) =
      Inl UnknownCategoryName"
    by code_simp
  then have e: "fromstring_loop (initial_state 0) [''x => Q''] = Inl UnknownCategoryName"
    by (cases "fromstring_loop (initial_state 0) [''x => Q'']") auto
  have h2: "splitlines ''x => Q\<newline>foo ## N'' = [''x => Q''] @ ''foo ## N'' # []
        \<and> fromstring_loop (initial_state 0) [''x => Q''] = Inl UnknownCategoryName"
    using s2 e by blast
  have b: "fromstring 0 ''x => Q\<newline>foo ## N'' = Inl UnknownCategoryName"
    by (rule malformed_line_aborts[THEN conjunct2, THEN conjunct2, THEN mp, OF h2])
  from s foo_malformed r a s2 e b show ?thesis by blast
qed

text \<open>
  The claim as it was written fails when an earlier line fails with another error: the
  build stops at the first line that fails.
\<close>

theorem malformed_line_aborts_counterexample:
  "is_malformed ''foo ## N''
   \<and> splitlines ''x => Q\<newline>foo ## N'' = [''x => Q'', ''foo ## N'']
   \<and> fromstring 0 ''x => Q\<newline>foo ## N'' = Inl UnknownCategoryName"
proof -
  have "map_sum id snd (fromstring 0 ''x => Q\<newline>foo ## N'') = Inl UnknownCategoryName"
    by code_simp
  then have "fromstring 0 ''x => Q\<newline>foo ## N'' = Inl UnknownCategoryName"
    by (cases "fromstring 0 ''x => Q\<newline>foo ## N''") auto
  moreover have "splitlines ''x => Q\<newline>foo ## N'' = [''x => Q'', ''foo ## N'']"
    by (simp add: splitlines_def is_linebreak_def)
  ultimately show ?thesis using foo_malformed by simp
qed

section \<open>Looking a word up\<close>

lemma map_of_map_values:
  "map_of (map (\<lambda>(k, w). if k = key then (k, f w) else (k, w)) d) word =
     map_option (\<lambda>w. if word = key then f w else w) (map_of d word)"
  by (induction d) auto

lemma dd_getitem_dd_append:
  "fst (dd_getitem (dd_append d key x) word) =
     fst (dd_getitem d word) @ (if word = key then [x] else [])"
proof (cases "map_of d key")
  case None
  then show ?thesis
    by (auto simp: dd_getitem_def dd_append_def map_of_map_values split: option.splits)
next
  case (Some v)
  then show ?thesis
    by (auto simp: dd_getitem_def dd_append_def map_of_map_values split: option.splits)
qed

lemma process_line_entries:
  assumes "process_line st l = Inr st'"
  shows "fst (dd_getitem (st_entries st') word) =
           fst (dd_getitem (st_entries st) word)
           @ (if defines_word word l
              then (case line_category st l of None \<Rightarrow> [] | Some cat \<Rightarrow> [cat]) else [])"
proof (cases l rule: line_cases)
  case blank
  with assms show ?thesis
    by (simp add: process_line_blank defines_word_def definition_of_def)
next
  case decl
  with assms show ?thesis
    by (auto simp: process_line_declaration defines_word_def definition_of_def)
next
  case malformed
  with assms show ?thesis by (simp add: process_line_malformed)
next
  case (defn ident sep catstr)
  with assms show ?thesis
    by (auto simp: process_line_definition defines_word_def line_category_def
        dd_getitem_dd_append split: sum.splits if_splits)
qed

lemma fromstring_loop_entries:
  "fromstring_loop st ls = Inr st' \<Longrightarrow>
   fst (dd_getitem (st_entries st') word) =
     fst (dd_getitem (st_entries st) word) @ declared_categories word st ls"
proof (induction ls arbitrary: st)
  case Nil
  then show ?case by simp
next
  case (Cons l ls)
  from Cons.prems obtain st1 where
    p: "process_line st l = Inr st1" and r: "fromstring_loop st1 ls = Inr st'"
    by (auto split: sum.splits)
  from Cons.IH[OF r] process_line_entries[OF p, of word] p show ?case by simp
qed

lemma declared_categories_none:
  "\<forall>l\<in>set ls. \<not> defines_word word l \<Longrightarrow> declared_categories word st ls = []"
  by (induction ls arbitrary: st) (auto split: sum.splits)

text \<open>
  Claim C4.  In a built lexicon, \<open>categories\<close> returns for a word the categories of its
  word-entry lines, in the order of the lines, and the empty list for a word that is the
  identifier of no word-entry line.  It has no error to signal: its result is a list.
\<close>

theorem categories_lookup:
  "fromstring maxID src = Inr (lexicon, maxID') \<longrightarrow>
     fst (categories lexicon word) =
       declared_categories word (initial_state maxID) (splitlines src)
     \<and> ((\<forall>l\<in>set (splitlines src). \<not> defines_word word l) \<longrightarrow>
          fst (categories lexicon word) = [])"
proof
  assume b: "fromstring maxID src = Inr (lexicon, maxID')"
  then obtain st p ps where
    loop: "fromstring_loop (initial_state maxID) (splitlines src) = Inr st"
    and lx: "lexicon = \<lparr>lex_start = PrimitiveCategory p [], lex_primitives = st_primitives st,
           lex_families = st_families st, lex_entries = st_entries st\<rparr>"
    by (rule fromstring_Inr)
  have c: "fst (categories lexicon word) = fst (dd_getitem (st_entries st) word)"
    by (simp add: categories_def lx split: prod.splits)
  from fromstring_loop_entries[OF loop, of word]
  have d: "fst (categories lexicon word) =
       declared_categories word (initial_state maxID) (splitlines src)"
    by (simp add: c initial_state_def dd_getitem_def)
  with declared_categories_none[of "splitlines src" word "initial_state maxID"]
  show "fst (categories lexicon word) =
       declared_categories word (initial_state maxID) (splitlines src)
     \<and> ((\<forall>l\<in>set (splitlines src). \<not> defines_word word l) \<longrightarrow>
          fst (categories lexicon word) = [])"
    by simp
qed


theorem categories_lookup_witness:
  "categories_of_source 0
     '':- S,NP,N\<newline>Det :: NP/N\<newline>the => NP[sg]/N[sg]\<newline>the => NP[pl]/N[pl]\<newline>dog => N[sg]''
     ''the'' =
     Inr [FunctionalCategory (PrimitiveCategory ''NP'' [''sg'']) (PrimitiveCategory ''N'' [''sg''])
            (Direction ''/'' [[], []]),
          FunctionalCategory (PrimitiveCategory ''NP'' [''pl'']) (PrimitiveCategory ''N'' [''pl''])
            (Direction ''/'' [[], []])]
   \<and> categories_of_source 0
     '':- S,NP,N\<newline>Det :: NP/N\<newline>the => NP[sg]/N[sg]\<newline>the => NP[pl]/N[pl]\<newline>dog => N[sg]''
     ''zzz'' = Inr []"
proof -
  let ?src = "'':- S,NP,N\<newline>Det :: NP/N\<newline>the => NP[sg]/N[sg]\<newline>the => NP[pl]/N[pl]\<newline>dog => N[sg]''"
  have "\<not> isl (fromstring 0 ?src)" by code_simp
  then obtain lexicon n where b: "fromstring 0 ?src = Inr (lexicon, n)"
    by (cases "fromstring 0 ?src") auto
  have the: "declared_categories ''the'' (initial_state 0) (splitlines ?src) =
      [FunctionalCategory (PrimitiveCategory ''NP'' [''sg'']) (PrimitiveCategory ''N'' [''sg''])
            (Direction ''/'' [[], []]),
       FunctionalCategory (PrimitiveCategory ''NP'' [''pl'']) (PrimitiveCategory ''N'' [''pl''])
            (Direction ''/'' [[], []])]"
    by code_simp
  have zzz: "\<forall>l\<in>set (splitlines ?src). \<not> defines_word ''zzz'' l" by code_simp
  from categories_lookup[of 0 ?src lexicon n "''the''"] b the
  have "fst (categories lexicon ''the'') =
      [FunctionalCategory (PrimitiveCategory ''NP'' [''sg'']) (PrimitiveCategory ''N'' [''sg''])
            (Direction ''/'' [[], []]),
       FunctionalCategory (PrimitiveCategory ''NP'' [''pl'']) (PrimitiveCategory ''N'' [''pl''])
            (Direction ''/'' [[], []])]"
    by simp
  moreover have "fst (categories lexicon ''zzz'') = []"
    by (rule categories_lookup[of 0 ?src lexicon n "''zzz''", THEN mp, OF b,
          THEN conjunct2, THEN mp, OF zzz])
  ultimately show ?thesis by (simp add: categories_of_source_def b)
qed

section \<open>Redefining a family\<close>

lemma process_line_families_other:
  assumes "process_line st l = Inr st'" and "\<not> defines_family ident l"
  shows "st_families st' ident = st_families st ident"
proof (cases l rule: line_cases)
  case blank
  with assms show ?thesis by (simp add: process_line_blank)
next
  case decl
  with assms show ?thesis by (auto simp: process_line_declaration)
next
  case malformed
  with assms show ?thesis by (simp add: process_line_malformed)
next
  case (defn i sep catstr)
  with assms show ?thesis
    by (auto simp: process_line_definition defines_family_def split: sum.splits if_splits)
qed

lemma process_line_families_defined:
  assumes "process_line st l = Inr st'" and "defines_family ident l"
  shows "st_families st' ident = line_family st l" and "line_family st l \<noteq> None"
proof -
  from assms(2) obtain catstr where d: "definition_of l = Some (ident, ''::'', catstr)"
    by (auto simp: defines_family_def split: option.splits)
  with assms(1) show "st_families st' ident = line_family st l" "line_family st l \<noteq> None"
    by (auto simp: process_line_definition line_family_def split: sum.splits)
qed

lemma fromstring_loop_families_other:
  "fromstring_loop st ls = Inr st' \<Longrightarrow> \<forall>x\<in>set ls. \<not> defines_family ident x \<Longrightarrow>
   st_families st' ident = st_families st ident"
proof (induction ls arbitrary: st)
  case Nil
  then show ?case by simp
next
  case (Cons l ls)
  from Cons.prems(1) obtain st1 where
    p: "process_line st l = Inr st1" and r: "fromstring_loop st1 ls = Inr st'"
    by (auto split: sum.splits)
  from Cons.IH[OF r] Cons.prems(2) process_line_families_other[OF p, of ident]
  show ?case by simp
qed

lemma fromstring_loop_last_definition:
  assumes "fromstring_loop st0 (pre @ l # post) = Inr st2" and "defines_family ident l"
    and "\<forall>x\<in>set post. \<not> defines_family ident x"
  shows "\<exists>st1. fromstring_loop st0 pre = Inr st1 \<and> st_families st2 ident = line_family st1 l
           \<and> line_family st1 l \<noteq> None"
proof -
  from assms(1) obtain st1 st1' where
    a: "fromstring_loop st0 pre = Inr st1" and p: "process_line st1 l = Inr st1'"
    and r: "fromstring_loop st1' post = Inr st2"
    by (auto simp: fromstring_loop_append split: sum.splits)
  from fromstring_loop_families_other[OF r assms(3)] process_line_families_defined[OF p assms(2)] a
  show ?thesis by simp
qed

text \<open>
  Claim C9.  A family-definition line whose category text parses is processed without
  error whether its identifier is already in the family table or not (no error is a
  duplicate definition), and stores the pair it parses to under the identifier.  After a
  build, or at any later point of it, the table maps an identifier to the pair parsed from
  the last family-definition line for it, parsed in the state that the lines before it have
  produced; and a reference to a family resolves to the pair that the table holds.
\<close>

theorem family_redefinition:
  "(definition_of l = Some (ident, ''::'', catstr)
      \<and> augParseCategory catstr (st_primitives st) (st_families st) None (st_maxID st) =
          Inr (cat, var, m) \<longrightarrow>
      process_line st l =
        Inr (st\<lparr>st_families := (st_families st)(ident \<mapsto> (cat, var)), st_maxID := m\<rparr>))
   \<and> (fromstring_loop st0 (pre @ l # post) = Inr st2 \<and> defines_family ident l
        \<and> (\<forall>x\<in>set post. \<not> defines_family ident x) \<longrightarrow>
        (\<exists>st1. fromstring_loop st0 pre = Inr st1
           \<and> line_family st1 l \<noteq> None \<and> st_families st2 ident = line_family st1 l))
   \<and> (fromstring maxID src = Inr (lexicon, maxID') \<and> splitlines src = pre @ l # post
        \<and> defines_family ident l \<and> (\<forall>x\<in>set post. \<not> defines_family ident x) \<longrightarrow>
        (\<exists>st1. fromstring_loop (initial_state maxID) pre = Inr st1
           \<and> line_family st1 l \<noteq> None \<and> lex_families lexicon ident = line_family st1 l))
   \<and> (ident \<noteq> [] \<and> (\<forall>c\<in>set ident. is_letter c) \<and> ident \<noteq> ''var''
        \<and> families ident = Some (cat, var) \<longrightarrow>
        augParseCategory ident primitives families None n = Inr (cat, var, n))"
proof (intro conjI impI)
  assume "definition_of l = Some (ident, ''::'', catstr)
      \<and> augParseCategory catstr (st_primitives st) (st_families st) None (st_maxID st) =
          Inr (cat, var, m)"
  then show "process_line st l =
        Inr (st\<lparr>st_families := (st_families st)(ident \<mapsto> (cat, var)), st_maxID := m\<rparr>)"
    by (simp add: process_line_definition)
next
  assume "fromstring_loop st0 (pre @ l # post) = Inr st2 \<and> defines_family ident l
        \<and> (\<forall>x\<in>set post. \<not> defines_family ident x)"
  then show "\<exists>st1. fromstring_loop st0 pre = Inr st1
           \<and> line_family st1 l \<noteq> None \<and> st_families st2 ident = line_family st1 l"
    using fromstring_loop_last_definition[of st0 pre l post st2 ident] by blast
next
  assume h: "fromstring maxID src = Inr (lexicon, maxID') \<and> splitlines src = pre @ l # post
        \<and> defines_family ident l \<and> (\<forall>x\<in>set post. \<not> defines_family ident x)"
  then obtain st p ps where
    loop: "fromstring_loop (initial_state maxID) (splitlines src) = Inr st"
    and lx: "lexicon = \<lparr>lex_start = PrimitiveCategory p [], lex_primitives = st_primitives st,
           lex_families = st_families st, lex_entries = st_entries st\<rparr>"
    using fromstring_Inr[of maxID src lexicon maxID'] by metis
  from h loop fromstring_loop_last_definition[of "initial_state maxID" pre l post st ident]
  show "\<exists>st1. fromstring_loop (initial_state maxID) pre = Inr st1
           \<and> line_family st1 l \<noteq> None \<and> lex_families lexicon ident = line_family st1 l"
    by (auto simp: lx)
next
  assume "ident \<noteq> [] \<and> (\<forall>c\<in>set ident. is_letter c) \<and> ident \<noteq> ''var''
        \<and> families ident = Some (cat, var)"
  then show "augParseCategory ident primitives families None n = Inr (cat, var, n)"
    using family_reference(1)[of ident families cat var primitives n] by simp
qed


theorem family_redefinition_witness:
  "(\<exists>lexicon n.
      fromstring 0 '':- S,NP,N\<newline>Det :: NP/N\<newline>Det :: NP\<newline>the => Det'' = Inr (lexicon, n)
      \<and> lex_families lexicon ''Det'' = Some (PrimitiveCategory ''NP'' [], None))
   \<and> categories_of_source 0 '':- S,NP,N\<newline>Det :: NP/N\<newline>Det :: NP\<newline>the => Det'' ''the'' =
       Inr [PrimitiveCategory ''NP'' []]
   \<and> process_line
        \<lparr>st_primitives = [''S'', ''NP'', ''N''],
          st_families = [''Det'' \<mapsto> (FunctionalCategory (PrimitiveCategory ''NP'' [])
                           (PrimitiveCategory ''N'' []) (Direction ''/'' [[], []]), None)],
          st_entries = [], st_maxID = 0\<rparr> ''Det :: NP'' =
       Inr \<lparr>st_primitives = [''S'', ''NP'', ''N''],
          st_families = [''Det'' \<mapsto> (PrimitiveCategory ''NP'' [], None)],
          st_entries = [], st_maxID = 0\<rparr>
   \<and> augParseCategory ''Det'' [''S'', ''NP'', ''N'']
        [''Det'' \<mapsto> (PrimitiveCategory ''NP'' [], None)] None 0 =
       Inr (PrimitiveCategory ''NP'' [], None, 0)"
proof -
  let ?src = "'':- S,NP,N\<newline>Det :: NP/N\<newline>Det :: NP\<newline>the => Det''"
  let ?pre = "['':- S,NP,N'', ''Det :: NP/N'']"
  let ?old = "[''Det'' \<mapsto> (FunctionalCategory (PrimitiveCategory ''NP'' [])
                           (PrimitiveCategory ''N'' []) (Direction ''/'' [[], []]), None)]"
  let ?new = "[''Det'' \<mapsto> (PrimitiveCategory ''NP'' [], None :: category option)]"
  let ?st = "\<lparr>st_primitives = [''S'', ''NP'', ''N''], st_families = ?old,
          st_entries = [], st_maxID = 0\<rparr>"
  have s: "splitlines ?src = ?pre @ ''Det :: NP'' # [''the => Det'']"
    by (simp add: splitlines_def is_linebreak_def)
  have "\<not> isl (fromstring 0 ?src)" by code_simp
  then obtain lexicon n where b: "fromstring 0 ?src = Inr (lexicon, n)"
    by (cases "fromstring 0 ?src") auto
  have d: "defines_family ''Det'' ''Det :: NP''"
    "\<forall>x\<in>set [''the => Det'']. \<not> defines_family ''Det'' x"
    by code_simp+
  have v: "case fromstring_loop (initial_state 0) ?pre of
             Inl e \<Rightarrow> False
           | Inr st1 \<Rightarrow> line_family st1 ''Det :: NP'' = Some (PrimitiveCategory ''NP'' [], None)"
    by code_simp
  have h: "fromstring 0 ?src = Inr (lexicon, n)
      \<and> splitlines ?src = ?pre @ ''Det :: NP'' # [''the => Det'']
      \<and> defines_family ''Det'' ''Det :: NP''
      \<and> (\<forall>x\<in>set [''the => Det'']. \<not> defines_family ''Det'' x)"
    using b s d by blast
  from family_redefinition[THEN conjunct2, THEN conjunct2, THEN conjunct1, THEN mp, OF h]
  obtain st1 where "fromstring_loop (initial_state 0) ?pre = Inr st1"
    and "lex_families lexicon ''Det'' = line_family st1 ''Det :: NP''"
    by blast
  with v have "lex_families lexicon ''Det'' = Some (PrimitiveCategory ''NP'' [], None)" by simp
  with b have c3: "\<exists>lexicon n. fromstring 0 ?src = Inr (lexicon, n)
      \<and> lex_families lexicon ''Det'' = Some (PrimitiveCategory ''NP'' [], None)" by blast
  have c5: "categories_of_source 0 ?src ''the'' = Inr [PrimitiveCategory ''NP'' []]"
    by code_simp
  have np: "augParseCategory ''NP'' (st_primitives ?st) (st_families ?st) None (st_maxID ?st) =
      Inr (PrimitiveCategory ''NP'' [], None, 0)"
    by (simp add: augParseCategory_name is_letter_def parsePrimitiveCategory_def
        parseSubscripts_def)
  have df: "definition_of ''Det :: NP'' = Some (''Det'', ''::'', ''NP'')"
    by (simp add: definition_of_def is_declaration_def clean_def source_eval)
  have h1: "definition_of ''Det :: NP'' = Some (''Det'', ''::'', ''NP'')
      \<and> augParseCategory ''NP'' (st_primitives ?st) (st_families ?st) None (st_maxID ?st) =
          Inr (PrimitiveCategory ''NP'' [], None, 0)"
    using df np by blast
  from family_redefinition[THEN conjunct1, THEN mp, OF h1]
  have c1: "process_line ?st ''Det :: NP'' =
       Inr \<lparr>st_primitives = [''S'', ''NP'', ''N''], st_families = ?new,
          st_entries = [], st_maxID = 0\<rparr>"
    by simp
  have h4: "''Det'' \<noteq> [] \<and> (\<forall>c\<in>set ''Det''. is_letter c) \<and> ''Det'' \<noteq> ''var''
        \<and> ?new ''Det'' = Some (PrimitiveCategory ''NP'' [], None)"
    by (simp add: is_letter_def)
  have c4: "augParseCategory ''Det'' [''S'', ''NP'', ''N''] ?new None 0 =
       Inr (PrimitiveCategory ''NP'' [], None, 0)"
    by (rule family_redefinition[where ident = "''Det''" and families = ?new
          and cat = "PrimitiveCategory ''NP'' []" and var = None,
          THEN conjunct2, THEN conjunct2, THEN conjunct2, THEN mp, OF h4])
  from c3 c5 c1 c4 show ?thesis by blast
qed

section \<open>The effect of a lookup\<close>

lemma str_entries_append:
  "str_entries str_of (es @ es') acc = str_entries str_of es' (str_entries str_of es acc)"
proof (induction es arbitrary: acc)
  case Nil
  then show ?case by (cases acc) simp
next
  case (Cons e es)
  obtain ident cats where e: "e = (ident, cats)" by (cases e)
  obtain string first where a: "acc = (string, first)" by (cases acc)
  from Cons.IH show ?case by (simp add: e a)
qed

lemma dd_getitem_present:
  "word \<in> fst ` set d \<Longrightarrow> snd (dd_getitem d word) = d"
  by (auto simp: dd_getitem_def map_of_eq_None_iff split: option.splits)

lemma dd_getitem_absent:
  "word \<notin> fst ` set d \<Longrightarrow> dd_getitem d word = ([], d @ [(word, [])])"
  by (auto simp: dd_getitem_def map_of_eq_None_iff split: option.splits)

lemma dd_getitem_again:
  "fst (dd_getitem (snd (dd_getitem d word)) w) = fst (dd_getitem d w)"
  by (cases "map_of d word"; cases "map_of d w")
     (auto simp: dd_getitem_def map_add_def split: option.splits)

lemma categories_alt:
  "categories self word =
     (fst (dd_getitem (lex_entries self) word),
      self\<lparr>lex_entries := snd (dd_getitem (lex_entries self) word)\<rparr>)"
  by (simp add: categories_def split: prod.splits)

text \<open>
  Claim C3, as amended.  \<open>start\<close> leaves the lexicon as it was.  \<open>categories\<close> never
  changes the start category, the primitives, the families or what a later call of
  \<open>categories\<close> returns for any word.  For a word that is a key of the entries it leaves
  the lexicon as it was, with the same keys, lists and debug rendering.  For a word that is
  not yet a key, the \<^verbatim>\<open>defaultdict\<close> stores the word with an empty list after the other
  keys, and the debug rendering is longer by the text of that entry.
\<close>

theorem categories_effect:
  "snd (start self) = self
   \<and> (word \<in> fst ` set (lex_entries self) \<longrightarrow>
        snd (categories self word) = self
        \<and> CCGLexicon_str str_of (snd (categories self word)) = CCGLexicon_str str_of self)
   \<and> (word \<notin> fst ` set (lex_entries self) \<longrightarrow>
        fst (categories self word) = []
        \<and> snd (categories self word) = self\<lparr>lex_entries := lex_entries self @ [(word, [])]\<rparr>
        \<and> (\<exists>sep. CCGLexicon_str str_of (snd (categories self word)) =
                    CCGLexicon_str str_of self @ sep @ word @ '' => ''))
   \<and> lex_start (snd (categories self word)) = lex_start self
   \<and> lex_primitives (snd (categories self word)) = lex_primitives self
   \<and> lex_families (snd (categories self word)) = lex_families self
   \<and> fst (categories (snd (categories self word)) w) = fst (categories self w)"
proof (intro conjI impI)
  show "snd (start self) = self" by (simp add: start_def)
next
  assume "word \<in> fst ` set (lex_entries self)"
  then show s: "snd (categories self word) = self"
    using dd_getitem_present[of word "lex_entries self"]
    by (simp add: categories_alt)
  show "CCGLexicon_str str_of (snd (categories self word)) = CCGLexicon_str str_of self"
    by (simp add: s)
next
  assume a: "word \<notin> fst ` set (lex_entries self)"
  from dd_getitem_absent[OF a] show "fst (categories self word) = []"
    by (simp add: categories_alt)
  from dd_getitem_absent[OF a]
  show s: "snd (categories self word) = self\<lparr>lex_entries := lex_entries self @ [(word, [])]\<rparr>"
    by (simp add: categories_alt)
  obtain string first where
    p: "str_entries str_of (lex_entries self) ([], True) = (string, first)"
    by (cases "str_entries str_of (lex_entries self) ([], True)")
  have "CCGLexicon_str str_of (snd (categories self word)) =
          CCGLexicon_str str_of self @ (if \<not> first then [CHR 0x0A] else []) @ word @ '' => ''"
    by (simp add: s CCGLexicon_str_def str_entries_append p)
  then show "\<exists>sep. CCGLexicon_str str_of (snd (categories self word)) =
                    CCGLexicon_str str_of self @ sep @ word @ '' => ''"
    by blast
next
  show "lex_start (snd (categories self word)) = lex_start self"
    "lex_primitives (snd (categories self word)) = lex_primitives self"
    "lex_families (snd (categories self word)) = lex_families self"
    by (simp_all add: categories_alt)
next
  show "fst (categories (snd (categories self word)) w) = fst (categories self w)"
    using dd_getitem_again[of "lex_entries self" word w]
    by (simp add: categories_alt)
qed

theorem categories_effect_witness:
  "snd (categories \<lparr>lex_start = PrimitiveCategory ''S'' [], lex_primitives = [''S'', ''N''],
          lex_families = Map.empty, lex_entries = [(''dog'', [PrimitiveCategory ''N'' []])]\<rparr> ''dog'') =
     \<lparr>lex_start = PrimitiveCategory ''S'' [], lex_primitives = [''S'', ''N''],
          lex_families = Map.empty, lex_entries = [(''dog'', [PrimitiveCategory ''N'' []])]\<rparr>
   \<and> snd (categories \<lparr>lex_start = PrimitiveCategory ''S'' [], lex_primitives = [''S'', ''N''],
          lex_families = Map.empty, lex_entries = [(''dog'', [PrimitiveCategory ''N'' []])]\<rparr> ''zzz'') =
     \<lparr>lex_start = PrimitiveCategory ''S'' [], lex_primitives = [''S'', ''N''],
          lex_families = Map.empty,
          lex_entries = [(''dog'', [PrimitiveCategory ''N'' []]), (''zzz'', [])]\<rparr>"
  using categories_effect[of "\<lparr>lex_start = PrimitiveCategory ''S'' [], lex_primitives = [''S'', ''N''],
          lex_families = Map.empty, lex_entries = [(''dog'', [PrimitiveCategory ''N'' []])]\<rparr>" "''dog''"]
    categories_effect[of "\<lparr>lex_start = PrimitiveCategory ''S'' [], lex_primitives = [''S'', ''N''],
          lex_families = Map.empty, lex_entries = [(''dog'', [PrimitiveCategory ''N'' []])]\<rparr>" "''zzz''"]
  by simp

text \<open>
  The claim as it was written fails for a word without an entry: after the call the
  entries have one more key.
\<close>

theorem categories_effect_counterexample:
  "fromstring 0 '':- S,N\<newline>dog => N'' =
     Inr (\<lparr>lex_start = PrimitiveCategory ''S'' [], lex_primitives = [''S'', ''N''],
           lex_families = Map.empty, lex_entries = [(''dog'', [PrimitiveCategory ''N'' []])]\<rparr>, 0)
   \<and> lex_entries (snd (categories
         \<lparr>lex_start = PrimitiveCategory ''S'' [], lex_primitives = [''S'', ''N''],
           lex_families = Map.empty, lex_entries = [(''dog'', [PrimitiveCategory ''N'' []])]\<rparr>
         ''zzz'')) =
       [(''dog'', [PrimitiveCategory ''N'' []]), (''zzz'', [])]
   \<and> snd (categories
         \<lparr>lex_start = PrimitiveCategory ''S'' [], lex_primitives = [''S'', ''N''],
           lex_families = Map.empty, lex_entries = [(''dog'', [PrimitiveCategory ''N'' []])]\<rparr>
         ''zzz'') \<noteq>
       \<lparr>lex_start = PrimitiveCategory ''S'' [], lex_primitives = [''S'', ''N''],
           lex_families = Map.empty, lex_entries = [(''dog'', [PrimitiveCategory ''N'' []])]\<rparr>"
proof -
  have "fromstring 0 '':- S,N\<newline>dog => N'' =
     Inr (\<lparr>lex_start = PrimitiveCategory ''S'' [], lex_primitives = [''S'', ''N''],
           lex_families = Map.empty, lex_entries = [(''dog'', [PrimitiveCategory ''N'' []])]\<rparr>, 0)"
    by (simp add: source_eval dd_append_def dd_getitem_def augParseCategory.simps
        parse_loop.simps regex_eval parse_prim_chunk_def PRIM_RE_def
        parsePrimitiveCategory_def parseSubscripts_def)
  then show ?thesis by (simp add: categories_alt dd_getitem_def)
qed

section \<open>Families and variables\<close>






end
